theory Spec2Isabelle
  imports Complex_Main
begin

section \<open>Data model\<close>

text \<open>
  The module \<^verbatim>\<open>similarities.pyx\<close> is Cython. Its loop variables \<^verbatim>\<open>xi, xj, r1, r2\<close> are
  32-bit C integers, its integer accumulators are numpy buffers of C \<^verbatim>\<open>long\<close> (64 bits),
  its other accumulators and its result are buffers of doubles. The variables
  \<^verbatim>\<open>n, num, denum\<close> of \<^verbatim>\<open>pearson\<close> are untyped, so they hold Python objects.

  \<^item> A C integer is an \<^typ>\<open>int\<close> kept in its range: every C operation is followed by the
    wrap-around of its type (\<open>c_int\<close>, \<open>c_long\<close>), which is what the compiled code does.
    A Python integer is an unbounded \<^typ>\<open>int\<close>.
  \<^item> A rating is a Python number, an integer or a float. Assigning it to a C integer
    truncates a float and raises \<^verbatim>\<open>OverflowError\<close> outside the 32-bit range.
  \<^item> Doubles are exact reals: rounding is not modelled, nor are the float infinities and
    not-a-number as ratings. Where a value goes through numpy scalar arithmetic (the
    square root and the unguarded division of \<^verbatim>\<open>cosine\<close> and \<^verbatim>\<open>pearson\<close>) the special
    results are kept: the type \<open>dbl\<close> has a not-a-number and the two infinities.
  \<^item> \<^verbatim>\<open>yr\<close> is a dictionary from a \<^verbatim>\<open>y\<close> to a list of pairs \<^verbatim>\<open>(x, r)\<close>; it is only
    ever iterated with \<^verbatim>\<open>yr.items()\<close>, so it is the list of its items. An \<^verbatim>\<open>x\<close> id is a
    Python integer.
  \<^item> A matrix is a function of the index pair, \<^verbatim>\<open>np.zeros\<close> the constant function, and
    a buffer access goes through \<open>buf_index\<close>, which raises as Cython does. The
    allocation itself is taken to succeed for every \<open>n_x \<ge> 0\<close>.
\<close>

datatype error = ValueError | OverflowError | IndexError | TypeError

datatype pynum = PyInt int | PyFloat real

type_synonym 'a matrix = "nat \<times> nat \<Rightarrow> 'a"

type_synonym y_ratings = "(int \<times> pynum) list"

type_synonym 'y yr = "('y \<times> y_ratings) list"

datatype dbl = Num real | PosInf | NegInf | NaN

subsection \<open>Machine integers\<close>

text \<open>The value of a C \<^verbatim>\<open>int\<close> (32 bits) and of a C \<^verbatim>\<open>long\<close> (64 bits) after wrap-around.\<close>

definition c_int :: "int \<Rightarrow> int" where
  "c_int k = (k + 2 ^ 31) mod 2 ^ 32 - 2 ^ 31"

definition c_long :: "int \<Rightarrow> int" where
  "c_long k = (k + 2 ^ 63) mod 2 ^ 64 - 2 ^ 63"

definition fits_int :: "int \<Rightarrow> bool" where
  "fits_int k \<longleftrightarrow> - (2 ^ 31) \<le> k \<and> k < 2 ^ 31"

text \<open>
  A Python object assigned to a \<^verbatim>\<open>cdef int\<close>: an integer must fit, a float is truncated
  towards zero first.
\<close>

definition py_trunc :: "real \<Rightarrow> int" where
  "py_trunc f = (if 0 \<le> f then \<lfloor>f\<rfloor> else \<lceil>f\<rceil>)"

definition int_as_c_int :: "int \<Rightarrow> error + int" where
  "int_as_c_int k = (if fits_int k then Inr k else Inl OverflowError)"

fun as_c_int :: "pynum \<Rightarrow> error + int" where
  "as_c_int (PyInt k) = int_as_c_int k"
| "as_c_int (PyFloat f) = int_as_c_int (py_trunc f)"

subsection \<open>numpy scalars\<close>

text \<open>
  \<^verbatim>\<open>np.sqrt\<close> of an integer that numpy can hold in 64 bits: not-a-number (and a
  warning) below zero.
\<close>

definition np_sqrt :: "int \<Rightarrow> dbl" where
  "np_sqrt k = (if k < 0 then NaN else Num (sqrt (of_int k)))"

text \<open>
  \<^verbatim>\<open>np.sqrt\<close> of a Python integer: one that fits neither a signed nor an unsigned 64-bit
  integer becomes an object array, whose elements have no \<^verbatim>\<open>sqrt\<close>, and the call raises.
\<close>

definition np_sqrt_py :: "int \<Rightarrow> error + dbl" where
  "np_sqrt_py k = (if - (2 ^ 63) \<le> k \<and> k < 2 ^ 64 then Inr (np_sqrt k) else Inl TypeError)"

text \<open>
  An integer divided by a numpy double. Division by zero does not raise: it gives
  not-a-number for \<open>0 / 0\<close> and an infinity otherwise (and a warning).
\<close>

fun np_div :: "int \<Rightarrow> dbl \<Rightarrow> dbl" where
  "np_div a (Num d) =
     (if d \<noteq> 0 then Num (of_int a / d)
      else if a = 0 then NaN else if 0 < a then PosInf else NegInf)"
| "np_div a PosInf = Num 0"
| "np_div a NegInf = Num 0"
| "np_div a NaN = NaN"

text \<open>The comparison \<^verbatim>\<open>==\<close> of two doubles: a not-a-number equals nothing, itself included.\<close>

definition ieee_eq :: "dbl \<Rightarrow> dbl \<Rightarrow> bool" where
  "ieee_eq a b \<longleftrightarrow> a \<noteq> NaN \<and> a = b"

subsection \<open>Buffers\<close>

text \<open>
  Indexing one axis of an \<open>n_x \<times> n_x\<close> buffer with a C integer, under Cython's default
  directives (\<^verbatim>\<open>boundscheck=True\<close>, \<^verbatim>\<open>wraparound=True\<close>): a negative index counts from
  the end, and an index that is still out of range raises \<^verbatim>\<open>IndexError\<close>.
\<close>

definition buf_index :: "int \<Rightarrow> int \<Rightarrow> error + nat" where
  "buf_index n_x k =
     (if 0 \<le> k \<and> k < n_x then Inr (nat k)
      else if k < 0 \<and> 0 \<le> k + n_x then Inr (nat (k + n_x))
      else Inl IndexError)"

text \<open>\<^verbatim>\<open>m[i, j] += v\<close> on a buffer of doubles, and on a buffer of C \<^verbatim>\<open>long\<close>.\<close>

definition add_at :: "real matrix \<Rightarrow> nat \<times> nat \<Rightarrow> real \<Rightarrow> real matrix" where
  "add_at m ij v = m(ij := m ij + v)"

definition add_long :: "int matrix \<Rightarrow> nat \<times> nat \<Rightarrow> int \<Rightarrow> int matrix" where
  "add_long m ij v = m(ij := c_long (m ij + v))"

text \<open>
  The accumulator matrices. Each function allocates the ones it declares; the others
  stay at zero and are never read by it.
\<close>

record accs =
  freq :: "int matrix"
  prods :: "int matrix"
  sqi :: "int matrix"
  sqj :: "int matrix"
  si :: "int matrix"
  sj :: "int matrix"
  diff :: "real matrix"
  sq_diff :: "real matrix"

definition zeros :: "accs" where
  "zeros = \<lparr>freq = (\<lambda>_. 0), prods = (\<lambda>_. 0), sqi = (\<lambda>_. 0), sqj = (\<lambda>_. 0),
            si = (\<lambda>_. 0), sj = (\<lambda>_. 0), diff = (\<lambda>_. 0), sq_diff = (\<lambda>_. 0)\<rparr>"

section \<open>The shared traversal\<close>

text \<open>A \<^verbatim>\<open>for\<close> loop whose body may raise: the first exception ends the loop.\<close>

fun for_each :: "('a \<Rightarrow> 's \<Rightarrow> error + 's) \<Rightarrow> 'a list \<Rightarrow> 's \<Rightarrow> error + 's" where
  "for_each body [] s = Inr s"
| "for_each body (a # as) s =
     (case body a s of Inl e \<Rightarrow> Inl e | Inr s' \<Rightarrow> for_each body as s')"

text \<open>
  \<^verbatim>\<open>for y, y_ratings in yr.items():
    for xi, r1 in y_ratings:
        for xj, r2 in y_ratings:
            <update the accumulators at [xi, xj]>\<close>
  Each loop header assigns the two items of the pair to C integers, the id first. The
  update \<open>upd\<close> receives the resolved index pair and the two ratings as C integers.
\<close>

definition accumulate ::
  "int \<Rightarrow> (nat \<times> nat \<Rightarrow> int \<Rightarrow> int \<Rightarrow> 's \<Rightarrow> 's) \<Rightarrow> 'y yr \<Rightarrow> 's \<Rightarrow> error + 's" where
  "accumulate n_x upd yr =
     for_each (\<lambda>(y, y_ratings).
       for_each (\<lambda>(x1, v1) acc.
         case int_as_c_int x1 of Inl e \<Rightarrow> Inl e
         | Inr xi \<Rightarrow>
           (case as_c_int v1 of Inl e \<Rightarrow> Inl e
            | Inr r1 \<Rightarrow>
              for_each (\<lambda>(x2, v2) acc.
                case int_as_c_int x2 of Inl e \<Rightarrow> Inl e
                | Inr xj \<Rightarrow>
                  (case as_c_int v2 of Inl e \<Rightarrow> Inl e
                   | Inr r2 \<Rightarrow>
                     (case buf_index n_x xi of Inl e \<Rightarrow> Inl e
                      | Inr i \<Rightarrow>
                        (case buf_index n_x xj of Inl e \<Rightarrow> Inl e
                         | Inr j \<Rightarrow> Inr (upd (i, j) r1 r2 acc)))))
              y_ratings acc))
       y_ratings)
     yr"

text \<open>\<^verbatim>\<open>for k in range(lo, hi)\<close> with a body that cannot raise.\<close>

definition for_range :: "nat \<Rightarrow> nat \<Rightarrow> (nat \<Rightarrow> 's \<Rightarrow> 's) \<Rightarrow> 's \<Rightarrow> 's" where
  "for_range lo hi body s = fold body [lo..<hi] s"

section \<open>The similarity functions\<close>

subsection \<open>cosine\<close>

text \<open>
  \<^verbatim>\<open>r1 * r2\<close> is a product of two C \<^verbatim>\<open>int\<close>; \<^verbatim>\<open>r1**2\<close> has the literal 2 of type
  \<^verbatim>\<open>long\<close>, so the power is computed on C \<^verbatim>\<open>long\<close>.
\<close>

definition cosine_step :: "nat \<times> nat \<Rightarrow> int \<Rightarrow> int \<Rightarrow> accs \<Rightarrow> accs" where
  "cosine_step ij r1 r2 a =
     a\<lparr>freq := add_long (freq a) ij 1,
       prods := add_long (prods a) ij (c_int (r1 * r2)),
       sqi := add_long (sqi a) ij (c_long (r1\<^sup>2)),
       sqj := add_long (sqj a) ij (c_long (r2\<^sup>2))\<rparr>"

definition cosine_acc :: "int \<Rightarrow> 'y yr \<Rightarrow> error + accs" where
  "cosine_acc n_x yr =
     (if n_x < 0 then Inl ValueError else accumulate n_x cosine_step yr zeros)"

definition cosine_fill :: "nat \<Rightarrow> accs \<Rightarrow> dbl matrix" where
  "cosine_fill n a =
     for_range 0 n (\<lambda>xi sim.
       for_range (xi + 1) n (\<lambda>xj sim.
         let sim =
           (if freq a (xi, xj) = 0 then sim((xi, xj) := Num 0)
            else
              let denum = np_sqrt (c_long (sqi a (xi, xj) * sqj a (xi, xj)))
              in sim((xi, xj) := np_div (prods a (xi, xj)) denum))
         in sim((xj, xi) := sim (xi, xj)))
       (sim((xi, xi) := Num 1)))
     (\<lambda>_. Num 0)"

definition cosine :: "int \<Rightarrow> 'y yr \<Rightarrow> error + dbl matrix" where
  "cosine n_x yr =
     (case cosine_acc n_x yr of Inl e \<Rightarrow> Inl e
      | Inr a \<Rightarrow> Inr (cosine_fill (nat n_x) a))"

subsection \<open>msd\<close>

text \<open>\<^verbatim>\<open>(r1 - r2)**2\<close>: the difference of two C \<^verbatim>\<open>int\<close>, squared on C \<^verbatim>\<open>long\<close>.\<close>

definition msd_step :: "nat \<times> nat \<Rightarrow> int \<Rightarrow> int \<Rightarrow> accs \<Rightarrow> accs" where
  "msd_step ij r1 r2 a =
     a\<lparr>sq_diff := add_at (sq_diff a) ij (of_int (c_long ((c_int (r1 - r2))\<^sup>2))),
       freq := add_long (freq a) ij 1\<rparr>"

definition msd_acc :: "int \<Rightarrow> 'y yr \<Rightarrow> error + accs" where
  "msd_acc n_x yr =
     (if n_x < 0 then Inl ValueError else accumulate n_x msd_step yr zeros)"

definition msd_fill :: "nat \<Rightarrow> accs \<Rightarrow> real matrix" where
  "msd_fill n a =
     for_range 0 n (\<lambda>xi sim.
       for_range (xi + 1) n (\<lambda>xj sim.
         let sim =
           (if sq_diff a (xi, xj) = 0 then sim((xi, xj) := of_int (freq a (xi, xj)))
            else sim((xi, xj) := of_int (freq a (xi, xj)) / sq_diff a (xi, xj)))
         in sim((xj, xi) := sim (xi, xj)))
       (sim((xi, xi) := 100)))
     (\<lambda>_. 0)"

definition msd :: "int \<Rightarrow> 'y yr \<Rightarrow> error + real matrix" where
  "msd n_x yr =
     (case msd_acc n_x yr of Inl e \<Rightarrow> Inl e
      | Inr a \<Rightarrow> Inr (msd_fill (nat n_x) a))"

subsection \<open>compute\_mean\_diff\<close>

definition mean_diff_step :: "nat \<times> nat \<Rightarrow> int \<Rightarrow> int \<Rightarrow> accs \<Rightarrow> accs" where
  "mean_diff_step ij r1 r2 a =
     a\<lparr>diff := add_at (diff a) ij (of_int (c_int (r1 - r2))),
       freq := add_long (freq a) ij 1\<rparr>"

definition mean_diff_acc :: "int \<Rightarrow> 'y yr \<Rightarrow> error + accs" where
  "mean_diff_acc n_x yr =
     (if n_x < 0 then Inl ValueError else accumulate n_x mean_diff_step yr zeros)"

definition mean_diff_fill :: "nat \<Rightarrow> accs \<Rightarrow> real matrix" where
  "mean_diff_fill n a =
     for_range 0 n (\<lambda>xi mean_diff.
       for_range (xi + 1) n (\<lambda>xj mean_diff.
         if freq a (xi, xj) \<noteq> 0 then
           let mean_diff = mean_diff((xi, xj) := diff a (xi, xj) / of_int (freq a (xi, xj)))
           in mean_diff((xj, xi) := - mean_diff (xi, xj))
         else mean_diff)
       (mean_diff((xi, xi) := 0)))
     (\<lambda>_. 0)"

definition compute_mean_diff :: "int \<Rightarrow> 'y yr \<Rightarrow> error + real matrix" where
  "compute_mean_diff n_x yr =
     (case mean_diff_acc n_x yr of Inl e \<Rightarrow> Inl e
      | Inr a \<Rightarrow> Inr (mean_diff_fill (nat n_x) a))"

subsection \<open>msdClone\<close>

text \<open>
  \<^verbatim>\<open>(r1 - r2 - mean_diff[xi, xj])**2\<close>: the difference of the two C \<^verbatim>\<open>int\<close> first, then
  double arithmetic.
\<close>

definition msdClone_step ::
  "real matrix \<Rightarrow> nat \<times> nat \<Rightarrow> int \<Rightarrow> int \<Rightarrow> accs \<Rightarrow> accs" where
  "msdClone_step mean_diff ij r1 r2 a =
     a\<lparr>sq_diff := add_at (sq_diff a) ij ((of_int (c_int (r1 - r2)) - mean_diff ij)\<^sup>2),
       freq := add_long (freq a) ij 1\<rparr>"

definition msdClone_acc :: "int \<Rightarrow> 'y yr \<Rightarrow> error + accs" where
  "msdClone_acc n_x yr =
     (if n_x < 0 then Inl ValueError
      else
        case compute_mean_diff n_x yr of Inl e \<Rightarrow> Inl e
        | Inr mean_diff \<Rightarrow> accumulate n_x (msdClone_step mean_diff) yr zeros)"

definition msdClone :: "int \<Rightarrow> 'y yr \<Rightarrow> error + real matrix" where
  "msdClone n_x yr =
     (case msdClone_acc n_x yr of Inl e \<Rightarrow> Inl e
      | Inr a \<Rightarrow> Inr (msd_fill (nat n_x) a))"

subsection \<open>pearson\<close>

definition pearson_step :: "nat \<times> nat \<Rightarrow> int \<Rightarrow> int \<Rightarrow> accs \<Rightarrow> accs" where
  "pearson_step ij r1 r2 a =
     a\<lparr>prods := add_long (prods a) ij (c_int (r1 * r2)),
       freq := add_long (freq a) ij 1,
       sqi := add_long (sqi a) ij (c_long (r1\<^sup>2)),
       sqj := add_long (sqj a) ij (c_long (r2\<^sup>2)),
       si := add_long (si a) ij r1,
       sj := add_long (sj a) ij r2\<rparr>"

definition pearson_acc :: "int \<Rightarrow> 'y yr \<Rightarrow> error + accs" where
  "pearson_acc n_x yr =
     (if n_x < 0 then Inl ValueError else accumulate n_x pearson_step yr zeros)"

text \<open>
  \<^verbatim>\<open>n\<close> is a Python integer, so \<^verbatim>\<open>n * prods[xi, xj]\<close>, \<^verbatim>\<open>n * sqi[xi, xj]\<close>, the
  differences and the product under the root are unbounded; \<^verbatim>\<open>si[xi, xj] * sj[xi, xj]\<close>
  and \<^verbatim>\<open>si[xi, xj]**2\<close> are computed on C \<^verbatim>\<open>long\<close>.
\<close>

definition pearson_fill :: "nat \<Rightarrow> accs \<Rightarrow> error + dbl matrix" where
  "pearson_fill n_x a =
     for_each (\<lambda>xi sim.
       for_each (\<lambda>xj sim.
         let n = freq a (xi, xj);
             num = n * prods a (xi, xj) - c_long (si a (xi, xj) * sj a (xi, xj));
             radicand = (n * sqi a (xi, xj) - c_long ((si a (xi, xj))\<^sup>2)) *
                        (n * sqj a (xi, xj) - c_long ((sj a (xi, xj))\<^sup>2))
         in case np_sqrt_py radicand of Inl e \<Rightarrow> Inl e
            | Inr denum \<Rightarrow>
              let sim = (if denum = Num 0 then sim((xi, xj) := Num 0)
                         else sim((xi, xj) := np_div num denum))
              in Inr (sim((xj, xi) := sim (xi, xj))))
       [xi + 1..<n_x] (sim((xi, xi) := Num 1)))
     [0..<n_x] (\<lambda>_. Num 0)"

definition pearson :: "int \<Rightarrow> 'y yr \<Rightarrow> error + dbl matrix" where
  "pearson n_x yr =
     (case pearson_acc n_x yr of Inl e \<Rightarrow> Inl e
      | Inr a \<Rightarrow> pearson_fill (nat n_x) a)"

section \<open>Specification vocabulary\<close>

text \<open>
  An input whose ratings are Python integers, and the dictionary it stands for.
\<close>

type_synonym 'y int_yr = "('y \<times> (int \<times> int) list) list"

definition py_yr :: "'y int_yr \<Rightarrow> 'y yr" where
  "py_yr yr = map (\<lambda>(y, rs). (y, map (\<lambda>(x, r). (x, PyInt r)) rs)) yr"

text \<open>
  The input is well formed when \<open>n_x\<close> is a count, every \<open>x\<close> id lies in \<open>[0, n_x)\<close> and
  no \<open>x\<close> occurs twice in the list of one \<open>y\<close>.
\<close>

definition well_formed :: "int \<Rightarrow> 'y int_yr \<Rightarrow> bool" where
  "well_formed n_x yr \<longleftrightarrow>
     0 \<le> n_x \<and>
     (\<forall>(y, rs) \<in> set yr. distinct (map fst rs) \<and> (\<forall>(x, r) \<in> set rs. 0 \<le> x \<and> x < n_x))"

text \<open>
  The co-rated \<open>y\<close>s of the entities \<open>i\<close> and \<open>j\<close>: one pair \<open>(r\<^sub>i, r\<^sub>j)\<close> for every \<open>y\<close> whose
  list holds a rating of \<open>i\<close> and a rating of \<open>j\<close>, in the order of the \<open>y\<close>s.
\<close>

definition co_rated :: "'y int_yr \<Rightarrow> nat \<Rightarrow> nat \<Rightarrow> (int \<times> int) list" where
  "co_rated yr i j =
     List.map_filter (\<lambda>(y, rs).
       case map_of rs (int i) of None \<Rightarrow> None
       | Some ri \<Rightarrow> (case map_of rs (int j) of None \<Rightarrow> None | Some rj \<Rightarrow> Some (ri, rj))) yr"

text \<open>The number of co-rated \<open>y\<close>s, and the sum of \<open>f r\<^sub>i r\<^sub>j\<close> over them.\<close>

definition co_freq :: "'y int_yr \<Rightarrow> nat \<Rightarrow> nat \<Rightarrow> int" where
  "co_freq yr i j = int (length (co_rated yr i j))"

definition co_sum :: "(int \<Rightarrow> int \<Rightarrow> 'a::comm_monoid_add) \<Rightarrow> 'y int_yr \<Rightarrow> nat \<Rightarrow> nat \<Rightarrow> 'a" where
  "co_sum f yr i j = (\<Sum>(ri, rj)\<leftarrow>co_rated yr i j. f ri rj)"

text \<open>Every rating has an absolute value of at most \<open>R\<close>; every rating fits a C \<^verbatim>\<open>int\<close>.\<close>

definition ratings_le :: "int \<Rightarrow> 'y int_yr \<Rightarrow> bool" where
  "ratings_le R yr \<longleftrightarrow> (\<forall>(y, rs) \<in> set yr. \<forall>(x, r) \<in> set rs. \<bar>r\<bar> \<le> R)"

definition ratings_fit :: "'y int_yr \<Rightarrow> bool" where
  "ratings_fit yr \<longleftrightarrow> (\<forall>(y, rs) \<in> set yr. \<forall>(x, r) \<in> set rs. fits_int r)"

text \<open>
  The ranges on which the C arithmetic of the functions cannot overflow. For \<^verbatim>\<open>msd\<close>,
  \<^verbatim>\<open>compute_mean_diff\<close> and \<^verbatim>\<open>msdClone\<close>: \<open>n_x\<close> and the ids fit a C \<^verbatim>\<open>int\<close>, the difference of two
  ratings does, and the count of \<open>y\<close>s fits a C \<^verbatim>\<open>long\<close>. For \<^verbatim>\<open>cosine\<close>, with \<open>N\<close> the
  number of \<open>y\<close>s and \<open>R \<ge> 1\<close> a bound of the ratings: \<open>N * R\<^sup>2 < 2\<^sup>3\<^sup>1\<close>, which bounds the
  product of two ratings, the sums and the product of the two sums of squares. For
  \<^verbatim>\<open>pearson\<close>: \<open>N * R < 2\<^sup>1\<^sup>5\<close>, which also keeps the number under the root below \<open>2\<^sup>6\<^sup>4\<close>.
\<close>

definition diff_range :: "int \<Rightarrow> 'y int_yr \<Rightarrow> bool" where
  "diff_range n_x yr \<longleftrightarrow>
     n_x < 2 ^ 31 \<and> int (length yr) < 2 ^ 63 \<and> ratings_le (2 ^ 30 - 1) yr"

definition cosine_range :: "int \<Rightarrow> int \<Rightarrow> 'y int_yr \<Rightarrow> bool" where
  "cosine_range n_x R yr \<longleftrightarrow>
     n_x < 2 ^ 31 \<and> 1 \<le> R \<and> ratings_le R yr \<and> int (length yr) * R\<^sup>2 < 2 ^ 31"

definition pearson_range :: "int \<Rightarrow> int \<Rightarrow> 'y int_yr \<Rightarrow> bool" where
  "pearson_range n_x R yr \<longleftrightarrow>
     n_x < 2 ^ 31 \<and> 1 \<le> R \<and> ratings_le R yr \<and> int (length yr) * R < 2 ^ 15"

text \<open>The traversal when nothing raises: the same loops without the checks.\<close>

definition traverse ::
  "(nat \<times> nat \<Rightarrow> int \<Rightarrow> int \<Rightarrow> 's \<Rightarrow> 's) \<Rightarrow> 'y int_yr \<Rightarrow> 's \<Rightarrow> 's" where
  "traverse upd yr =
     fold (\<lambda>(y, rs). fold (\<lambda>(xi, r1). fold (\<lambda>(xj, r2). upd (nat xi, nat xj) r1 r2) rs) rs) yr"

text \<open>The example of the specification: two \<open>y\<close>s over three entities.\<close>

definition example_yr :: "nat int_yr" where
  "example_yr = [(0, [(0, 4), (1, 4), (2, 1)]), (1, [(0, 5), (1, 5)])]"



definition prod_wrap_yr :: "nat int_yr" where
  "prod_wrap_yr = [(0, [(0, 46341), (1, 46341)])]"

definition prod_wrap2_yr :: "nat int_yr" where
  "prod_wrap2_yr = [(0, [(0, 46341), (1, 46341)]), (1, [(0, 0), (1, 0)])]"

definition long_wrap_yr :: "nat int_yr" where
  "long_wrap_yr = [(0, [(0, 65536), (1, 65536)])]"

text \<open>A rating that fits no C \<^verbatim>\<open>int\<close>.\<close>

definition overflow_yr :: "nat int_yr" where
  "overflow_yr = [(0, [(0, 2147483648)])]"


text \<open>Every rating that occurs in \<open>yr\<close> is nonzero.\<close>

definition ratings_nonzero :: "'y int_yr \<Rightarrow> bool" where
  "ratings_nonzero yr \<longleftrightarrow> (\<forall>(y, rs) \<in> set yr. \<forall>(x, r) \<in> set rs. r \<noteq> 0)"

text \<open>One \<open>y\<close> that gives both entities the rating 0.\<close>

definition zero_yr :: "nat int_yr" where
  "zero_yr = [(0, [(0, 0), (1, 0)])]"

text \<open>
  On every co-rated \<open>y\<close> the second rating is the affine image \<open>a * r\<^sub>i + b\<close> of the first.
\<close>

definition affine_on :: "real \<Rightarrow> real \<Rightarrow> (int \<times> int) list \<Rightarrow> bool" where
  "affine_on a b ps \<longleftrightarrow> (\<forall>(ri, rj) \<in> set ps. real_of_int rj = a * real_of_int ri + b)"

text \<open>The first rating takes at least two different values over the co-rated \<open>y\<close>s.\<close>

definition rating_varies :: "(int \<times> int) list \<Rightarrow> bool" where
  "rating_varies ps \<longleftrightarrow> (\<exists>(ri, rj) \<in> set ps. \<exists>(ri', rj') \<in> set ps. ri \<noteq> ri')"

text \<open>Three \<open>y\<close>s on which the entity 1 rates \<open>2 * r + 3\<close> where the entity 0 rates \<open>r\<close>.\<close>

definition affine_yr :: "nat int_yr" where
  "affine_yr = [(0, [(0, 1), (1, 5)]), (1, [(0, 2), (1, 7)]), (2, [(0, 4), (1, 11)])]"

text \<open>
  The numerator of \<^verbatim>\<open>pearson\<close> for a pair and the number under its root, as the fill loop
  computes them from the accumulators.
\<close>

definition pearson_num :: "accs \<Rightarrow> nat \<times> nat \<Rightarrow> int" where
  "pearson_num a ij = freq a ij * prods a ij - c_long (si a ij * sj a ij)"

definition pearson_radicand :: "accs \<Rightarrow> nat \<times> nat \<Rightarrow> int" where
  "pearson_radicand a ij =
     (freq a ij * sqi a ij - c_long ((si a ij)\<^sup>2)) * (freq a ij * sqj a ij - c_long ((sj a ij)\<^sup>2))"

text \<open>
  The integer a rating stands for once it is assigned to a C \<^verbatim>\<open>int\<close>, and the input with
  every rating replaced by that integer.
\<close>

fun rating_of :: "pynum \<Rightarrow> int" where
  "rating_of (PyInt k) = k"
| "rating_of (PyFloat f) = py_trunc f"

definition int_ratings :: "'y yr \<Rightarrow> 'y int_yr" where
  "int_ratings yr = map (\<lambda>(y, rs). (y, map (\<lambda>(x, v). (x, rating_of v)) rs)) yr"

text \<open>Every id and every rating of \<open>yr\<close> can be assigned to a C \<^verbatim>\<open>int\<close>.\<close>

definition converts :: "'y yr \<Rightarrow> bool" where
  "converts yr \<longleftrightarrow>
     (\<forall>(y, rs) \<in> set yr. \<forall>(x, v) \<in> set rs. fits_int x \<and> fits_int (rating_of v))"

text \<open>Some \<open>x\<close> id of \<open>yr\<close> lies outside \<open>[0, n_x)\<close>.\<close>

definition id_outside_range :: "int \<Rightarrow> 'y yr \<Rightarrow> bool" where
  "id_outside_range n_x yr \<longleftrightarrow> (\<exists>(y, rs) \<in> set yr. \<exists>(x, v) \<in> set rs. x < 0 \<or> n_x \<le> x)"

text \<open>Some \<open>x\<close> id of \<open>yr\<close> lies outside \<open>[-n_x, n_x)\<close>: no buffer access can resolve it.\<close>

definition id_out_of_bounds :: "int \<Rightarrow> 'y yr \<Rightarrow> bool" where
  "id_out_of_bounds n_x yr \<longleftrightarrow>
     (\<exists>(y, rs) \<in> set yr. \<exists>(x, v) \<in> set rs. x < - n_x \<or> n_x \<le> x)"

text \<open>The input with every negative id \<open>x\<close> replaced by \<open>x + n_x\<close>.\<close>

definition wrap_ids :: "int \<Rightarrow> 'y yr \<Rightarrow> 'y yr" where
  "wrap_ids n_x yr =
     map (\<lambda>(y, rs). (y, map (\<lambda>(x, v). (if x < 0 then x + n_x else x, v)) rs)) yr"

text \<open>
  One \<open>y\<close> with a rating under the \<open>x\<close> id \<open>-1\<close>; one with a rating under the id 3; and one
  with a float rating.
\<close>

definition neg_yr :: "nat yr" where
  "neg_yr = [(0, [(- 1, PyInt 3), (0, PyInt 5)])]"

definition big_yr :: "nat yr" where
  "big_yr = [(0, [(3, PyInt 3)])]"

definition float_yr :: "nat yr" where
  "float_yr = [(0, [(0, PyFloat (7 / 2)), (1, PyFloat (- 5 / 2))])]"

text \<open>
  Two \<open>y\<close>s on which the number under the root of \<^verbatim>\<open>pearson\<close> is \<open>2\<^sup>6\<^sup>4\<close> for the entities 0
  and 1, and which leave the entity 2 without any rating.
\<close>

definition sqrt_yr :: "nat int_yr" where
  "sqrt_yr = [(0, [(0, 65536), (1, 0)]), (1, [(0, 0), (1, 65536)])]"


section \<open>Wrap-around\<close>

lemma c_int_id: "fits_int k \<Longrightarrow> c_int k = k"
  by (simp add: c_int_def fits_int_def)

lemma c_long_id: "- (2 ^ 63) \<le> k \<Longrightarrow> k < 2 ^ 63 \<Longrightarrow> c_long k = k"
  by (simp add: c_long_def)

lemma c_long_0: "c_long 0 = 0"
  by (simp add: c_long_def)

lemma wrap_add_left:
  fixes a b h m :: int
  shows "((a + h) mod m - h + b + h) mod m - h = (a + b + h) mod m - h"
proof -
  have "(a + h) mod m - h + b + h = (a + h) mod m + b" by simp
  moreover have "((a + h) mod m + b) mod m = (a + h + b) mod m"
    by (simp add: mod_add_left_eq)
  moreover have "a + h + b = a + b + h" by simp
  ultimately show ?thesis by simp
qed

lemma c_long_add_left: "c_long (c_long a + b) = c_long (a + b)"
  unfolding c_long_def by (rule wrap_add_left)

lemma c_long_idem: "c_long (c_long a) = c_long a"
  using c_long_add_left[of a 0] by simp

lemma c_long_abs_id: "\<bar>k\<bar> < 2 ^ 63 \<Longrightarrow> c_long k = k"
  by (rule c_long_id) simp_all

lemma c_int_abs_id: "\<bar>k\<bar> < 2 ^ 31 \<Longrightarrow> c_int k = k"
  by (rule c_int_id) (auto simp: fits_int_def)

section \<open>The traversal computes sums over the co-rated \<open>y\<close>s\<close>

lemma buf_index_in_range: "0 \<le> k \<Longrightarrow> k < n_x \<Longrightarrow> buf_index n_x k = Inr (nat k)"
  by (simp add: buf_index_def)

lemma for_each_pure:
  assumes "\<And>a s. a \<in> set xs \<Longrightarrow> body a s = Inr (g a s)"
  shows "for_each body xs s = Inr (fold g xs s)"
  using assms by (induction xs arbitrary: s) simp_all

lemma for_each_pure_map:
  assumes "\<And>a s. a \<in> set xs \<Longrightarrow> body (h a) s = Inr (g a s)"
  shows "for_each body (map h xs) s = Inr (fold g xs s)"
  using assms by (induction xs arbitrary: s) simp_all

lemma int_as_c_int_fits: "fits_int k \<Longrightarrow> int_as_c_int k = Inr k"
  by (simp add: int_as_c_int_def)

lemma accumulate_py:
  fixes yr :: "'y int_yr"
  assumes wf: "well_formed n_x yr" and n: "n_x \<le> 2 ^ 31" and fit: "ratings_fit yr"
  shows "accumulate n_x upd (py_yr yr) s = Inr (traverse upd yr s)"
proof -
  have row: "for_each (\<lambda>(x1, v1) acc.
         case int_as_c_int x1 of Inl e \<Rightarrow> Inl e
         | Inr xi \<Rightarrow>
           (case as_c_int v1 of Inl e \<Rightarrow> Inl e
            | Inr r1 \<Rightarrow>
              for_each (\<lambda>(x2, v2) acc.
                case int_as_c_int x2 of Inl e \<Rightarrow> Inl e
                | Inr xj \<Rightarrow>
                  (case as_c_int v2 of Inl e \<Rightarrow> Inl e
                   | Inr r2 \<Rightarrow>
                     (case buf_index n_x xi of Inl e \<Rightarrow> Inl e
                      | Inr i \<Rightarrow>
                        (case buf_index n_x xj of Inl e \<Rightarrow> Inl e
                         | Inr j \<Rightarrow> Inr (upd (i, j) r1 r2 acc)))))
              (map (\<lambda>(x, r). (x, PyInt r)) rs) acc))
       (map (\<lambda>(x, r). (x, PyInt r)) rs) s =
      Inr (fold (\<lambda>(xi, r1). fold (\<lambda>(xj, r2). upd (nat xi, nat xj) r1 r2) rs) rs s)"
    if "(y, rs) \<in> set yr" for y rs s
  proof -
    have ok: "0 \<le> x \<and> x < n_x \<and> fits_int x \<and> fits_int r" if "(x, r) \<in> set rs" for x r
      using wf fit n \<open>(y, rs) \<in> set yr\<close> that
      by (fastforce simp: well_formed_def ratings_fit_def fits_int_def)
    have inner: "for_each (\<lambda>(x2, v2) acc.
                case int_as_c_int x2 of Inl e \<Rightarrow> Inl e
                | Inr xj \<Rightarrow>
                  (case as_c_int v2 of Inl e \<Rightarrow> Inl e
                   | Inr r2 \<Rightarrow>
                     (case buf_index n_x xi of Inl e \<Rightarrow> Inl e
                      | Inr i \<Rightarrow>
                        (case buf_index n_x xj of Inl e \<Rightarrow> Inl e
                         | Inr j \<Rightarrow> Inr (upd (i, j) r1 r2 acc)))))
              (map (\<lambda>(x, r). (x, PyInt r)) rs) acc =
        Inr (fold (\<lambda>(xj, r2). upd (nat xi, nat xj) r1 r2) rs acc)"
      if "0 \<le> xi" "xi < n_x" for xi r1 acc
      by (rule for_each_pure_map)
         (use ok in \<open>auto simp: int_as_c_int_fits buf_index_in_range that\<close>)
    show ?thesis
    proof (rule for_each_pure_map)
      fix a s assume a: "a \<in> set rs"
      obtain x r where [simp]: "a = (x, r)" by (cases a)
      from ok[of x r] a have f: "0 \<le> x" "x < n_x" "fits_int x" "fits_int r" by simp_all
      show "(\<lambda>(x1, v1) acc.
              case int_as_c_int x1 of Inl e \<Rightarrow> Inl e
              | Inr xi \<Rightarrow>
                (case as_c_int v1 of Inl e \<Rightarrow> Inl e
                 | Inr r1 \<Rightarrow>
                   for_each (\<lambda>(x2, v2) acc.
                     case int_as_c_int x2 of Inl e \<Rightarrow> Inl e
                     | Inr xj \<Rightarrow>
                       (case as_c_int v2 of Inl e \<Rightarrow> Inl e
                        | Inr r2 \<Rightarrow>
                          (case buf_index n_x xi of Inl e \<Rightarrow> Inl e
                           | Inr i \<Rightarrow>
                             (case buf_index n_x xj of Inl e \<Rightarrow> Inl e
                              | Inr j \<Rightarrow> Inr (upd (i, j) r1 r2 acc)))))
                   (map (\<lambda>(x, r). (x, PyInt r)) rs) acc))
              ((\<lambda>(x, r). (x, PyInt r)) a) s =
           Inr ((\<lambda>(xi, r1). fold (\<lambda>(xj, r2). upd (nat xi, nat xj) r1 r2) rs) a s)"
        by (simp add: int_as_c_int_fits f inner[OF f(1,2)])
    qed
  qed
  show ?thesis
    unfolding accumulate_def traverse_def py_yr_def
    by (rule for_each_pure_map) (auto simp: row)
qed

lemma fold_field_sum2:
  fixes get :: "'s \<Rightarrow> ('a::comm_monoid_add) matrix"
  assumes "\<And>x s. get (step x s) ij = get s ij + val x"
  shows "get (fold step xs s) ij = get s ij + (\<Sum>x\<leftarrow>xs. val x)"
  using assms
  by (induction xs arbitrary: s) (simp_all add: add.assoc)

lemma traverse_field:
  fixes get :: "'s \<Rightarrow> real matrix"
  assumes upd: "\<And>ij r1 r2 s. get (upd ij r1 r2 s) = add_at (get s) ij (f ij r1 r2)"
  shows "get (traverse upd yr s) (i, j) =
           get s (i, j) +
           (\<Sum>(y, rs)\<leftarrow>yr. \<Sum>(xi, r1)\<leftarrow>rs. \<Sum>(xj, r2)\<leftarrow>rs.
              if nat xi = i \<and> nat xj = j then f (i, j) r1 r2 else 0)"
proof -
  have inner: "get (fold (\<lambda>(xj, r2). upd (nat xi, nat xj) r1 r2) rs s) (i, j) =
      get s (i, j) + (\<Sum>(xj, r2)\<leftarrow>rs. if nat xi = i \<and> nat xj = j then f (i, j) r1 r2 else 0)"
    for xi r1 rs s
    by (rule fold_field_sum2) (auto simp: upd add_at_def)
  have middle: "get (fold (\<lambda>(xi, r1). fold (\<lambda>(xj, r2). upd (nat xi, nat xj) r1 r2) rs) rs' s) (i, j) =
      get s (i, j) + (\<Sum>(xi, r1)\<leftarrow>rs'. \<Sum>(xj, r2)\<leftarrow>rs. if nat xi = i \<and> nat xj = j then f (i, j) r1 r2 else 0)"
    for rs rs' s
    by (rule fold_field_sum2) (auto simp: inner)
  show ?thesis
    unfolding traverse_def
    by (rule fold_field_sum2) (auto simp: middle)
qed

lemma sum_list_pick:
  fixes h :: "int \<Rightarrow> 'a::comm_monoid_add"
  assumes "distinct (map fst rs)"
  shows "(\<Sum>(x, r)\<leftarrow>rs. if x = k then h r else 0) =
         (case map_of rs k of None \<Rightarrow> 0 | Some r \<Rightarrow> h r)"
  using assms
proof (induction rs)
  case Nil
  then show ?case by simp
next
  case (Cons p rs)
  obtain x r where p: "p = (x, r)" by (cases p)
  show ?case
  proof (cases "x = k")
    case True
    with Cons.prems p have "map_of rs k = None"
      by (simp add: map_of_eq_None_iff)
    with Cons p True show ?thesis by simp
  next
    case False
    with Cons p show ?thesis by simp
  qed
qed

lemma sum_list_zero: "(\<Sum>x\<leftarrow>xs. (0::'a::comm_monoid_add)) = 0"
  by (induction xs) simp_all

lemma pair_sum_pick:
  fixes g :: "int \<Rightarrow> int \<Rightarrow> 'a::comm_monoid_add"
  assumes d: "distinct (map fst rs)" and nn: "\<forall>(x, r) \<in> set rs. 0 \<le> x"
  shows "(\<Sum>(xi, r1)\<leftarrow>rs. \<Sum>(xj, r2)\<leftarrow>rs. if nat xi = i \<and> nat xj = j then g r1 r2 else 0) =
         (case map_of rs (int i) of None \<Rightarrow> 0
          | Some ri \<Rightarrow> (case map_of rs (int j) of None \<Rightarrow> 0 | Some rj \<Rightarrow> g ri rj))"
proof -
  have eqn: "nat x = k \<longleftrightarrow> x = int k" if "(x, r) \<in> set rs" for x r k
    using nn that by auto
  have inner: "(\<Sum>(xj, r2)\<leftarrow>rs. if nat xi = i \<and> nat xj = j then g r1 r2 else 0) =
      (if xi = int i then (case map_of rs (int j) of None \<Rightarrow> 0 | Some rj \<Rightarrow> g r1 rj) else 0)"
    if "(xi, r1) \<in> set rs" for xi r1
  proof -
    have "(\<Sum>(xj, r2)\<leftarrow>rs. if nat xi = i \<and> nat xj = j then g r1 r2 else 0) =
          (\<Sum>(xj, r2)\<leftarrow>rs. if xj = int j then (if xi = int i then g r1 r2 else 0) else 0)"
      by (rule arg_cong[where f = sum_list], rule map_cong) (auto simp: eqn eqn[OF that])
    also have "\<dots> = (case map_of rs (int j) of None \<Rightarrow> 0 | Some rj \<Rightarrow> if xi = int i then g r1 rj else 0)"
      by (rule sum_list_pick[OF d])
    finally show ?thesis by (simp split: option.splits)
  qed
  have "(\<Sum>(xi, r1)\<leftarrow>rs. \<Sum>(xj, r2)\<leftarrow>rs. if nat xi = i \<and> nat xj = j then g r1 r2 else 0) =
        (\<Sum>(xi, r1)\<leftarrow>rs. if xi = int i then (case map_of rs (int j) of None \<Rightarrow> 0 | Some rj \<Rightarrow> g r1 rj) else 0)"
    by (rule arg_cong[where f = sum_list], rule map_cong) (auto simp: inner)
  also have "\<dots> = (case map_of rs (int i) of None \<Rightarrow> 0
          | Some ri \<Rightarrow> (case map_of rs (int j) of None \<Rightarrow> 0 | Some rj \<Rightarrow> g ri rj))"
    by (rule sum_list_pick[OF d])
  finally show ?thesis .
qed

lemma sum_list_map_filter:
  fixes f :: "'b \<Rightarrow> 'a::comm_monoid_add"
  shows "(\<Sum>v\<leftarrow>List.map_filter g xs. f v) = (\<Sum>x\<leftarrow>xs. case g x of None \<Rightarrow> 0 | Some v \<Rightarrow> f v)"
  by (induction xs) (simp_all split: option.splits)

lemma co_rated_sum:
  fixes g :: "int \<Rightarrow> int \<Rightarrow> 'a::comm_monoid_add"
  assumes "well_formed n_x yr"
  shows "(\<Sum>(y, rs)\<leftarrow>yr. \<Sum>(xi, r1)\<leftarrow>rs. \<Sum>(xj, r2)\<leftarrow>rs.
            if nat xi = i \<and> nat xj = j then g r1 r2 else 0) =
         (\<Sum>(ri, rj)\<leftarrow>co_rated yr i j. g ri rj)"
proof -
  have "(\<Sum>(y, rs)\<leftarrow>yr. \<Sum>(xi, r1)\<leftarrow>rs. \<Sum>(xj, r2)\<leftarrow>rs.
            if nat xi = i \<and> nat xj = j then g r1 r2 else 0) =
        (\<Sum>(y, rs)\<leftarrow>yr. case map_of rs (int i) of None \<Rightarrow> 0
          | Some ri \<Rightarrow> (case map_of rs (int j) of None \<Rightarrow> 0 | Some rj \<Rightarrow> g ri rj))"
  proof (rule arg_cong[where f = sum_list], rule map_cong[OF refl])
    fix p assume p: "p \<in> set yr"
    obtain y rs where [simp]: "p = (y, rs)" by (cases p)
    from assms p have "distinct (map fst rs)" "\<forall>(x, r) \<in> set rs. 0 \<le> x"
      by (auto simp: well_formed_def)
    from pair_sum_pick[OF this, of i j g]
    show "(case p of (y, rs) \<Rightarrow> \<Sum>(xi, r1)\<leftarrow>rs. \<Sum>(xj, r2)\<leftarrow>rs.
            if nat xi = i \<and> nat xj = j then g r1 r2 else 0) =
          (case p of (y, rs) \<Rightarrow> (case map_of rs (int i) of None \<Rightarrow> 0
          | Some ri \<Rightarrow> (case map_of rs (int j) of None \<Rightarrow> 0 | Some rj \<Rightarrow> g ri rj)))"
      by simp
  qed
  also have "\<dots> = (\<Sum>(ri, rj)\<leftarrow>co_rated yr i j. g ri rj)"
    unfolding co_rated_def sum_list_map_filter
    by (rule arg_cong[where f = sum_list], rule map_cong) (auto split: option.splits)
  finally show ?thesis .
qed

lemma traverse_co_sum:
  fixes get :: "'s \<Rightarrow> real matrix"
  assumes wf: "well_formed n_x yr"
    and upd: "\<And>ij r1 r2 s. get (upd ij r1 r2 s) = add_at (get s) ij (f ij r1 r2)"
  shows "get (traverse upd yr s) (i, j) = get s (i, j) + co_sum (f (i, j)) yr i j"
  by (simp add: traverse_field[of get upd f, OF upd] co_rated_sum[OF wf] co_sum_def)

lemma fold_long_sum:
  fixes get :: "'s \<Rightarrow> int matrix"
  assumes step: "\<And>x s. c_long (get s ij) = get s ij \<Longrightarrow> get (step x s) ij = c_long (get s ij + val x)"
    and fixed: "c_long (get s ij) = get s ij"
  shows "get (fold step xs s) ij = c_long (get s ij + (\<Sum>x\<leftarrow>xs. val x))"
  using fixed
proof (induction xs arbitrary: s)
  case Nil
  then show ?case by simp
next
  case (Cons x xs)
  from step[OF Cons.prems] have s1: "get (step x s) ij = c_long (get s ij + val x)" .
  then have "c_long (get (step x s) ij) = get (step x s) ij"
    by (simp add: c_long_idem)
  from Cons.IH[OF this] show ?case
    by (simp add: s1 c_long_add_left add.assoc)
qed

lemma traverse_long_field:
  fixes get :: "'s \<Rightarrow> int matrix"
  assumes upd: "\<And>ij r1 r2 s. get (upd ij r1 r2 s) = add_long (get s) ij (f ij r1 r2)"
    and fixed: "c_long (get s (i, j)) = get s (i, j)"
  shows "get (traverse upd yr s) (i, j) =
           c_long (get s (i, j) +
           (\<Sum>(y, rs)\<leftarrow>yr. \<Sum>(xi, r1)\<leftarrow>rs. \<Sum>(xj, r2)\<leftarrow>rs.
              if nat xi = i \<and> nat xj = j then f (i, j) r1 r2 else 0))"
proof -
  have inner: "get (fold (\<lambda>(xj, r2). upd (nat xi, nat xj) r1 r2) rs s) (i, j) =
      c_long (get s (i, j) + (\<Sum>(xj, r2)\<leftarrow>rs. if nat xi = i \<and> nat xj = j then f (i, j) r1 r2 else 0))"
    if "c_long (get s (i, j)) = get s (i, j)" for xi r1 rs s
    by (rule fold_long_sum[where get = get and ij = "(i, j)"]) (auto simp: upd add_long_def that)
  have middle: "get (fold (\<lambda>(xi, r1). fold (\<lambda>(xj, r2). upd (nat xi, nat xj) r1 r2) rs) rs' s) (i, j) =
      c_long (get s (i, j) +
        (\<Sum>(xi, r1)\<leftarrow>rs'. \<Sum>(xj, r2)\<leftarrow>rs. if nat xi = i \<and> nat xj = j then f (i, j) r1 r2 else 0))"
    if "c_long (get s (i, j)) = get s (i, j)" for rs rs' s
    by (rule fold_long_sum[where get = get and ij = "(i, j)"]) (auto simp: inner that)
  show ?thesis
    unfolding traverse_def
    by (rule fold_long_sum[where get = get and ij = "(i, j)"]) (auto simp: middle fixed)
qed

lemma traverse_co_sum_long:
  fixes get :: "'s \<Rightarrow> int matrix"
  assumes wf: "well_formed n_x yr"
    and upd: "\<And>ij r1 r2 s. get (upd ij r1 r2 s) = add_long (get s) ij (f ij r1 r2)"
    and zero: "get s (i, j) = 0"
  shows "get (traverse upd yr s) (i, j) = c_long (co_sum (f (i, j)) yr i j)"
proof -
  have "c_long (get s (i, j)) = get s (i, j)" by (simp add: zero c_long_0)
  from traverse_long_field[where get = get and upd = upd and f = f and yr = yr, OF upd this]
  show ?thesis by (simp add: zero co_rated_sum[OF wf] co_sum_def)
qed

lemma co_sum_count: "co_sum (\<lambda>ri rj. 1) yr i j = co_freq yr i j"
  by (simp add: co_sum_def co_freq_def case_prod_unfold sum_list_triv)

section \<open>The fill loops\<close>

lemma for_range_Suc:
  "lo \<le> hi \<Longrightarrow> for_range lo (Suc hi) body s = body hi (for_range lo hi body s)"
  by (simp add: for_range_def)

lemma for_range_empty: "hi \<le> lo \<Longrightarrow> for_range lo hi body s = s"
  by (simp add: for_range_def)

lemma inner_fill:
  assumes body: "\<And>xj s. body xj s = (if p xj then s((xi, xj) := u xj, (xj, xi) := l xj) else s)"
  shows "for_range (Suc xi) n body s (a, b) =
     (if a = xi \<and> xi < b \<and> b < n \<and> p b then u b
      else if b = xi \<and> xi < a \<and> a < n \<and> p a then l a
      else s (a, b))"
proof (induction n arbitrary: a b)
  case 0
  then show ?case by (simp add: for_range_empty)
next
  case (Suc n)
  show ?case
  proof (cases "Suc xi \<le> n")
    case True
    define t where "t = for_range (Suc xi) n body s"
    have "for_range (Suc xi) (Suc n) body s = body n t"
      using True by (simp add: for_range_Suc t_def)
    also have "\<dots> = (if p n then t((xi, n) := u n, (n, xi) := l n) else t)"
      by (rule body)
    finally have step: "for_range (Suc xi) (Suc n) body s =
        (if p n then t((xi, n) := u n, (n, xi) := l n) else t)" .
    have t: "t (a, b) = (if a = xi \<and> xi < b \<and> b < n \<and> p b then u b
      else if b = xi \<and> xi < a \<and> a < n \<and> p a then l a
      else s (a, b))" for a b
      unfolding t_def by (rule Suc.IH)
    show ?thesis
      unfolding step using True by (auto simp: t less_Suc_eq)
  next
    case False
    then have "for_range (Suc xi) (Suc n) body s = s"
      by (simp add: for_range_empty)
    with False show ?thesis by auto
  qed
qed

lemma outer_fill:
  assumes body: "\<And>xi xj s. body xi xj s =
                 (if p xi xj then s((xi, xj) := u xi xj, (xj, xi) := l xi xj) else s)"
  shows "for_range 0 m (\<lambda>xi s. for_range (Suc xi) n (body xi) (s((xi, xi) := c xi))) s (a, b) =
     (if a = b then (if a < m then c a else s (a, b))
      else if a < b then (if a < m \<and> b < n \<and> p a b then u a b else s (a, b))
      else (if b < m \<and> a < n \<and> p b a then l b a else s (a, b)))"
proof -
  define row where "row = (\<lambda>xi s. for_range (Suc xi) n (body xi) (s((xi, xi) := c xi)))"
  have row: "row xi s (a, b) =
     (if a = xi \<and> xi < b \<and> b < n \<and> p xi b then u xi b
      else if b = xi \<and> xi < a \<and> a < n \<and> p xi a then l xi a
      else if a = xi \<and> b = xi then c xi else s (a, b))" for xi s a b
    unfolding row_def
    by (simp add: inner_fill[of "body xi" "p xi" xi "u xi" "l xi", OF body])
  have "for_range 0 m row s (a, b) =
     (if a = b then (if a < m then c a else s (a, b))
      else if a < b then (if a < m \<and> b < n \<and> p a b then u a b else s (a, b))
      else (if b < m \<and> a < n \<and> p b a then l b a else s (a, b)))"
  proof (induction m arbitrary: a b)
    case 0
    then show ?case by (simp add: for_range_empty)
  next
    case (Suc m)
    define t where "t = for_range 0 m row s"
    have step: "for_range 0 (Suc m) row s = row m t"
      by (simp add: for_range_Suc t_def)
    have t: "t (a, b) =
     (if a = b then (if a < m then c a else s (a, b))
      else if a < b then (if a < m \<and> b < n \<and> p a b then u a b else s (a, b))
      else (if b < m \<and> a < n \<and> p b a then l b a else s (a, b)))" for a b
      unfolding t_def by (rule Suc.IH)
    show ?case
      unfolding step row by (auto simp: t less_Suc_eq)
  qed
  then show ?thesis by (simp add: row_def)
qed

section \<open>Facts about the co-rated \<open>y\<close>s\<close>

lemma map_filter_mem:
  "v \<in> set (List.map_filter g xs) \<Longrightarrow> \<exists>x \<in> set xs. g x = Some v"
  by (induction xs) (auto split: option.splits)

lemma co_rated_mem:
  assumes "(ri, rj) \<in> set (co_rated yr i j)"
  shows "\<exists>y rs. (y, rs) \<in> set yr \<and> (int i, ri) \<in> set rs \<and> (int j, rj) \<in> set rs"
proof -
  from assms obtain p where p: "p \<in> set yr"
    and sel: "(case p of (y, rs) \<Rightarrow>
       (case map_of rs (int i) of None \<Rightarrow> None
        | Some ri \<Rightarrow> (case map_of rs (int j) of None \<Rightarrow> None | Some rj \<Rightarrow> Some (ri, rj)))) =
       Some (ri, rj)"
    unfolding co_rated_def by (blast dest: map_filter_mem)
  obtain y rs where [simp]: "p = (y, rs)" by (cases p)
  from sel have "map_of rs (int i) = Some ri" "map_of rs (int j) = Some rj"
    by (auto split: option.splits)
  then have "(int i, ri) \<in> set rs" "(int j, rj) \<in> set rs"
    by (auto dest: map_of_SomeD)
  with p show ?thesis by auto
qed

lemma co_rated_swap: "co_rated yr j i = map prod.swap (co_rated yr i j)"
  unfolding co_rated_def by (induction yr) (auto split: option.splits)

lemma co_freq_swap: "co_freq yr j i = co_freq yr i j"
  by (simp add: co_freq_def co_rated_swap[of yr j i])

lemma co_sum_swap: "co_sum f yr j i = co_sum (\<lambda>ri rj. f rj ri) yr i j"
  by (simp add: co_sum_def co_rated_swap[of yr j i] comp_def case_prod_unfold)


lemma co_freq_nonneg: "0 \<le> co_freq yr i j"
  by (simp add: co_freq_def)

lemma co_sum_no_co_rating:
  fixes f :: "int \<Rightarrow> int \<Rightarrow> 'a::comm_monoid_add"
  assumes "co_freq yr i j = 0"
  shows "co_sum f yr i j = 0"
  using assms by (simp add: co_sum_def co_freq_def)

lemma co_sum_fst: "co_sum (\<lambda>ri rj. f ri) yr i j = (\<Sum>k\<leftarrow>map fst (co_rated yr i j). f k)"
  by (simp add: co_sum_def case_prod_unfold comp_def)

lemma co_sum_snd: "co_sum (\<lambda>ri rj. f rj) yr i j = (\<Sum>k\<leftarrow>map snd (co_rated yr i j). f k)"
  by (simp add: co_sum_def case_prod_unfold comp_def)

lemma map_filter_length: "length (List.map_filter g xs) \<le> length xs"
  by (induction xs) (auto split: option.splits)

lemma co_freq_le: "co_freq yr i j \<le> int (length yr)"
  by (simp add: co_freq_def co_rated_def map_filter_length)

lemma co_rated_le:
  assumes "ratings_le R yr" and "(ri, rj) \<in> set (co_rated yr i j)"
  shows "\<bar>ri\<bar> \<le> R" and "\<bar>rj\<bar> \<le> R"
  using co_rated_mem[OF assms(2)] assms(1) by (fastforce simp: ratings_le_def)+

lemma sum_list_abs_bound:
  fixes g :: "'b \<Rightarrow> int"
  assumes "\<And>x. x \<in> set xs \<Longrightarrow> \<bar>g x\<bar> \<le> B"
  shows "\<bar>\<Sum>x\<leftarrow>xs. g x\<bar> \<le> int (length xs) * B"
  using assms
proof (induction xs)
  case Nil
  then show ?case by simp
next
  case (Cons x xs)
  have "\<bar>g x\<bar> \<le> B" using Cons.prems by simp
  moreover have "\<bar>\<Sum>x\<leftarrow>xs. g x\<bar> \<le> int (length xs) * B" using Cons by simp
  ultimately show ?case by (simp add: algebra_simps)
qed

lemma co_sum_abs_bound:
  fixes f :: "int \<Rightarrow> int \<Rightarrow> int"
  assumes le: "ratings_le R yr"
    and f: "\<And>a b. \<bar>a\<bar> \<le> R \<Longrightarrow> \<bar>b\<bar> \<le> R \<Longrightarrow> \<bar>f a b\<bar> \<le> F" and F: "0 \<le> F"
  shows "\<bar>co_sum f yr i j\<bar> \<le> int (length yr) * F"
proof -
  have "\<bar>co_sum f yr i j\<bar> \<le> int (length (co_rated yr i j)) * F"
    unfolding co_sum_def
    by (rule sum_list_abs_bound) (auto intro!: f dest: co_rated_le[OF le])
  also have "\<dots> \<le> int (length yr) * F"
    using co_freq_le[of yr i j] F by (simp add: co_freq_def mult_right_mono)
  finally show ?thesis .
qed

section \<open>The supported ranges\<close>

lemma co_sum_cong:
  assumes "\<And>ri rj. (ri, rj) \<in> set (co_rated yr i j) \<Longrightarrow> f ri rj = g ri rj"
  shows "co_sum f yr i j = co_sum g yr i j"
  unfolding co_sum_def
  by (rule arg_cong[where f = sum_list], rule map_cong) (auto simp: assms)

lemma ratings_le_fit: "ratings_le R yr \<Longrightarrow> R < 2 ^ 31 \<Longrightarrow> ratings_fit yr"
  by (fastforce simp: ratings_le_def ratings_fit_def fits_int_def)





section \<open>Loops that raise\<close>

lemma for_each_all_ok:
  assumes "\<And>a s. a \<in> set xs \<Longrightarrow> \<exists>s'. body a s = Inr s'"
  shows "\<exists>s'. for_each body xs s = Inr s'"
  using assms
proof (induction xs arbitrary: s)
  case Nil
  then show ?case by simp
next
  case (Cons a xs)
  from Cons.prems[of a s] obtain s' where "body a s = Inr s'" by auto
  moreover from Cons have "\<exists>s''. for_each body xs s' = Inr s''" by simp
  ultimately show ?case by simp
qed

lemma for_each_cases:
  assumes "\<And>b s. b \<in> set xs \<Longrightarrow> (\<exists>e. body b s = Inl e \<and> P e) \<or> (\<exists>s'. body b s = Inr s')"
  shows "(\<exists>e. for_each body xs s = Inl e \<and> P e) \<or> (\<exists>s'. for_each body xs s = Inr s')"
  using assms
proof (induction xs arbitrary: s)
  case Nil
  then show ?case by simp
next
  case (Cons b xs)
  show ?case
  proof (cases "body b s")
    case (Inl e)
    with Cons.prems[of b s] have "P e" by auto
    with Inl show ?thesis by simp
  next
    case (Inr s')
    from Cons.IH[of s'] Cons.prems
    have "(\<exists>e. for_each body xs s' = Inl e \<and> P e) \<or> (\<exists>s''. for_each body xs s' = Inr s'')"
      by simp
    with Inr show ?thesis by simp
  qed
qed

lemma for_each_raises:
  assumes "a \<in> set xs" and "\<And>s. \<exists>e. body a s = Inl e \<and> P e"
    and "\<And>b s. b \<in> set xs \<Longrightarrow> (\<exists>e. body b s = Inl e \<and> P e) \<or> (\<exists>s'. body b s = Inr s')"
  shows "\<exists>e. for_each body xs s = Inl e \<and> P e"
  using assms
proof (induction xs arbitrary: s)
  case Nil
  then show ?case by simp
next
  case (Cons b xs)
  show ?case
  proof (cases "body b s")
    case (Inl e)
    with Cons.prems(3)[of b s] have "P e" by auto
    with Inl show ?thesis by simp
  next
    case (Inr s')
    with Cons.prems(2)[of s] have "a \<noteq> b" by auto
    with Cons.prems(1) have "a \<in> set xs" by simp
    from Cons.IH[OF this Cons.prems(2)] Cons.prems(3)
    have "\<exists>e. for_each body xs s' = Inl e \<and> P e"
      by simp
    with Inr show ?thesis by simp
  qed
qed

lemma for_each_map_cong:
  assumes "\<And>a s. a \<in> set xs \<Longrightarrow> body (h a) s = body' a s"
  shows "for_each body (map h xs) s = for_each body' xs s"
  using assms by (induction xs arbitrary: s) (simp_all split: sum.splits)

lemma for_each_cong:
  assumes "\<And>a s. a \<in> set xs \<Longrightarrow> body a s = body' a s"
  shows "for_each body xs s = for_each body' xs s"
  using for_each_map_cong[of xs body "\<lambda>a. a" body'] assms by simp

section \<open>Conversions and traversals that raise\<close>

lemma as_c_int_rating: "as_c_int v = int_as_c_int (rating_of v)"
  by (cases v) simp_all

lemma buf_index_cases:
  "0 \<le> n_x \<Longrightarrow> buf_index n_x k =
     (if k < - n_x \<or> n_x \<le> k then Inl IndexError
      else Inr (if 0 \<le> k then nat k else nat (k + n_x)))"
  by (auto simp: buf_index_def)

lemma accumulate_result:
  fixes yr :: "'y yr" and upd :: "nat \<times> nat \<Rightarrow> int \<Rightarrow> int \<Rightarrow> 's \<Rightarrow> 's"
  assumes n: "0 \<le> n_x"
  shows "P IndexError \<Longrightarrow> converts yr \<or> P OverflowError \<Longrightarrow>
         \<not> converts yr \<or> id_out_of_bounds n_x yr \<Longrightarrow>
         \<exists>e. accumulate n_x upd yr s = Inl e \<and> P e"
    and "converts yr \<Longrightarrow> \<not> id_out_of_bounds n_x yr \<Longrightarrow> \<exists>s'. accumulate n_x upd yr s = Inr s'"
    and "converts yr \<Longrightarrow> \<not> id_out_of_bounds n_x yr \<Longrightarrow> n_x \<le> 2 ^ 31 \<Longrightarrow>
         accumulate n_x upd (wrap_ids n_x yr) s = accumulate n_x upd yr s"
    and "accumulate n_x upd (py_yr (int_ratings yr)) s = accumulate n_x upd yr s"
proof -
  define conv where "conv = (\<lambda>p :: int \<times> pynum. fits_int (fst p) \<and> fits_int (rating_of (snd p)))"
  define oob where "oob = (\<lambda>k. k < - n_x \<or> n_x \<le> k)"
  define idx where "idx = (\<lambda>k. if 0 \<le> k then nat k else nat (k + n_x))"
  define cell where "cell = (\<lambda>xi r1 (p :: int \<times> pynum) (acc :: 's).
      if \<not> conv p then Inl OverflowError
      else if oob xi \<or> oob (fst p) then Inl IndexError
      else Inr (upd (idx xi, idx (fst p)) r1 (rating_of (snd p)) acc))"
  define inner where "inner = (\<lambda>rs (p :: int \<times> pynum) (acc :: 's).
      if \<not> conv p then Inl OverflowError
      else for_each (cell (fst p) (rating_of (snd p))) rs acc)"
  define row where "row = (\<lambda>(p :: 'y \<times> y_ratings). for_each (inner (snd p)) (snd p))"
  have c: "(\<lambda>(x2, v2) acc.
                case int_as_c_int x2 of Inl e \<Rightarrow> Inl e
                | Inr xj \<Rightarrow>
                  (case as_c_int v2 of Inl e \<Rightarrow> Inl e
                   | Inr r2 \<Rightarrow>
                     (case buf_index n_x xi of Inl e \<Rightarrow> Inl e
                      | Inr i \<Rightarrow>
                        (case buf_index n_x xj of Inl e \<Rightarrow> Inl e
                         | Inr j \<Rightarrow> Inr (upd (i, j) r1 r2 acc))))) = cell xi r1"
    for xi r1
    by (simp add: fun_eq_iff cell_def conv_def oob_def idx_def as_c_int_rating
          int_as_c_int_def buf_index_cases[OF n])
  have i: "(\<lambda>(x1, v1) acc.
         case int_as_c_int x1 of Inl e \<Rightarrow> Inl e
         | Inr xi \<Rightarrow>
           (case as_c_int v1 of Inl e \<Rightarrow> Inl e
            | Inr r1 \<Rightarrow>
              for_each (\<lambda>(x2, v2) acc.
                case int_as_c_int x2 of Inl e \<Rightarrow> Inl e
                | Inr xj \<Rightarrow>
                  (case as_c_int v2 of Inl e \<Rightarrow> Inl e
                   | Inr r2 \<Rightarrow>
                     (case buf_index n_x xi of Inl e \<Rightarrow> Inl e
                      | Inr i \<Rightarrow>
                        (case buf_index n_x xj of Inl e \<Rightarrow> Inl e
                         | Inr j \<Rightarrow> Inr (upd (i, j) r1 r2 acc)))))
              rs acc)) = inner rs"
    for rs
    unfolding c
    by (simp add: fun_eq_iff inner_def conv_def as_c_int_rating int_as_c_int_def)
  have acc: "accumulate n_x upd zr = for_each row zr" for zr :: "'y yr"
    unfolding accumulate_def i by (simp add: row_def case_prod_unfold)

  show "\<exists>e. accumulate n_x upd yr s = Inl e \<and> P e"
    if P: "P IndexError" and O: "converts yr \<or> P OverflowError"
      and B: "\<not> converts yr \<or> id_out_of_bounds n_x yr"
  proof -
    have item: "conv p \<or> P OverflowError" if "(y, rs) \<in> set yr" "p \<in> set rs" for y rs p
      using O that by (cases p) (auto simp: converts_def conv_def)
    have cellP: "(\<exists>e. cell xi r1 p a = Inl e \<and> P e) \<or> (\<exists>a'. cell xi r1 p a = Inr a')"
      if "(y, rs) \<in> set yr" "p \<in> set rs" for y rs p xi r1 a
      using item[OF that] P by (auto simp: cell_def)
    have cell_bad: "\<exists>e. cell xi r1 p a = Inl e \<and> P e"
      if "(y, rs) \<in> set yr" "p \<in> set rs" "\<not> conv p \<or> oob (fst p)" for y rs p xi r1 a
      using item[OF that(1,2)] that(3) P by (auto simp: cell_def)
    have innerP: "(\<exists>e. inner rs q a = Inl e \<and> P e) \<or> (\<exists>a'. inner rs q a = Inr a')"
      if m: "(y, rs) \<in> set yr" "q \<in> set rs" for y rs q a
    proof (cases "conv q")
      case True
      then show ?thesis
        unfolding inner_def using cellP[OF m(1)] by (simp add: for_each_cases)
    next
      case False
      with item[OF m] show ?thesis by (simp add: inner_def)
    qed
    have inner_bad: "\<exists>e. inner rs q a = Inl e \<and> P e"
      if m: "(y, rs) \<in> set yr" "q \<in> set rs" and b: "b \<in> set rs" "\<not> conv b \<or> oob (fst b)"
      for y rs q b a
    proof (cases "conv q")
      case True
      have "\<exists>e. for_each (cell (fst q) (rating_of (snd q))) rs a = Inl e \<and> P e"
        by (rule for_each_raises[OF b(1)], rule cell_bad[OF m(1) b], rule cellP[OF m(1)])
      with True show ?thesis by (simp add: inner_def)
    next
      case False
      with item[OF m] show ?thesis by (simp add: inner_def)
    qed
    have row_bad: "\<exists>e. row (y, rs) a = Inl e \<and> P e"
      if m: "(y, rs) \<in> set yr" and b: "b \<in> set rs" "\<not> conv b \<or> oob (fst b)" for y rs b a
      unfolding row_def snd_conv
      by (rule for_each_raises[OF b(1)], rule inner_bad[OF m b(1) b], rule innerP[OF m])
    have rowP: "(\<exists>e. row p a = Inl e \<and> P e) \<or> (\<exists>a'. row p a = Inr a')"
      if "p \<in> set yr" for p a
    proof -
      obtain y rs where p: "p = (y, rs)" by (cases p)
      with that have m: "(y, rs) \<in> set yr" by simp
      show ?thesis
        unfolding p row_def snd_conv by (rule for_each_cases) (rule innerP[OF m])
    qed
    from B have "\<exists>y rs b. (y, rs) \<in> set yr \<and> b \<in> set rs \<and> (\<not> conv b \<or> oob (fst b))"
    proof
      assume "\<not> converts yr"
      then show ?thesis by (fastforce simp: converts_def conv_def)
    next
      assume "id_out_of_bounds n_x yr"
      then show ?thesis by (fastforce simp: id_out_of_bounds_def oob_def)
    qed
    then obtain y rs b where m: "(y, rs) \<in> set yr" "b \<in> set rs" "\<not> conv b \<or> oob (fst b)"
      by blast
    show ?thesis
      unfolding acc
      by (rule for_each_raises[OF m(1)], rule row_bad[OF m], rule rowP)
  qed

  have good: "conv p \<and> \<not> oob (fst p)"
    if "converts yr" "\<not> id_out_of_bounds n_x yr" "(y, rs) \<in> set yr" "p \<in> set rs" for y rs p
  proof
    from that(1,3,4) show "conv p"
      by (cases p) (fastforce simp: converts_def conv_def)
    from that(2,3,4) show "\<not> oob (fst p)"
      by (cases p) (fastforce simp: id_out_of_bounds_def oob_def)
  qed

  show "\<exists>s'. accumulate n_x upd yr s = Inr s'"
    if C: "converts yr" and I: "\<not> id_out_of_bounds n_x yr"
  proof -
    note g = good[OF C I]
    have inner_ok: "\<exists>a'. inner rs q a = Inr a'" if m: "(y, rs) \<in> set yr" "q \<in> set rs"
      for y rs q a
    proof -
      have "\<exists>a'. for_each (cell (fst q) (rating_of (snd q))) rs a = Inr a'"
        by (rule for_each_all_ok) (use g[OF m] g[OF m(1)] in \<open>simp add: cell_def\<close>)
      with g[OF m] show ?thesis by (simp add: inner_def)
    qed
    have "\<exists>a'. row p a = Inr a'" if "p \<in> set yr" for p a
    proof -
      obtain y rs where p: "p = (y, rs)" by (cases p)
      with that have m: "(y, rs) \<in> set yr" by simp
      show ?thesis
        unfolding p row_def snd_conv by (rule for_each_all_ok) (rule inner_ok[OF m])
    qed
    then show ?thesis unfolding acc by (rule for_each_all_ok)
  qed

  show "accumulate n_x upd (wrap_ids n_x yr) s = accumulate n_x upd yr s"
    if C: "converts yr" and I: "\<not> id_out_of_bounds n_x yr" and N: "n_x \<le> 2 ^ 31"
  proof -
    note g = good[OF C I]
    define h where "h = (\<lambda>p :: int \<times> pynum. (if fst p < 0 then fst p + n_x else fst p, snd p))"
    have w: "wrap_ids n_x yr = map (\<lambda>p. (fst p, map h (snd p))) yr"
      by (simp add: wrap_ids_def h_def case_prod_unfold)
    have hp: "conv (h p) \<and> \<not> oob (fst (h p)) \<and> idx (fst (h p)) = idx (fst p) \<and>
              snd (h p) = snd p"
      if "conv p \<and> \<not> oob (fst p)" for p
      using that N by (auto simp: h_def conv_def oob_def idx_def fits_int_def)
    have cell_eq: "cell (fst (h q)) r1 (h p) a = cell (fst q) r1 p a"
      if "(y, rs) \<in> set yr" "q \<in> set rs" "p \<in> set rs" for y rs q p r1 a
      using hp[OF g[OF that(1,2)]] hp[OF g[OF that(1,3)]] g[OF that(1,2)] g[OF that(1,3)]
      by (simp add: cell_def)
    have inner_eq: "inner (map h rs) (h q) a = inner rs q a"
      if m: "(y, rs) \<in> set yr" "q \<in> set rs" for y rs q a
    proof -
      have "for_each (cell (fst (h q)) (rating_of (snd q))) (map h rs) a =
            for_each (cell (fst q) (rating_of (snd q))) rs a"
        by (rule for_each_map_cong) (rule cell_eq[OF m])
      with hp[OF g[OF m]] g[OF m] show ?thesis by (simp add: inner_def)
    qed
    have "row (fst p, map h (snd p)) a = row p a" if "p \<in> set yr" for p a
    proof -
      obtain y rs where p: "p = (y, rs)" by (cases p)
      with that have m: "(y, rs) \<in> set yr" by simp
      show ?thesis
        unfolding p row_def snd_conv fst_conv by (rule for_each_map_cong) (rule inner_eq[OF m])
    qed
    then show ?thesis unfolding acc w by (rule for_each_map_cong)
  qed

  show "accumulate n_x upd (py_yr (int_ratings yr)) s = accumulate n_x upd yr s"
  proof -
    define h where "h = (\<lambda>p :: int \<times> pynum. (fst p, PyInt (rating_of (snd p))))"
    have w: "py_yr (int_ratings yr) = map (\<lambda>p. (fst p, map h (snd p))) yr"
      by (simp add: py_yr_def int_ratings_def h_def case_prod_unfold comp_def)
    have cell_eq: "cell xi r1 (h p) a = cell xi r1 p a" for xi r1 p a
      by (simp add: cell_def h_def conv_def)
    have inner_eq: "inner (map h rs) (h q) a = inner rs q a" for rs q a
    proof -
      have "for_each (cell (fst q) (rating_of (snd q))) (map h rs) a =
            for_each (cell (fst q) (rating_of (snd q))) rs a"
        by (rule for_each_map_cong) (rule cell_eq)
      then show ?thesis by (simp add: inner_def h_def conv_def)
    qed
    have "row (fst p, map h (snd p)) a = row p a" for p a
      unfolding row_def snd_conv by (rule for_each_map_cong) (rule inner_eq)
    then show ?thesis unfolding acc w by (intro for_each_map_cong)
  qed
qed

lemma negative_n_x:
  assumes "n_x < 0"
  shows "cosine n_x yr = Inl ValueError" "msd n_x yr = Inl ValueError"
    "msdClone n_x yr = Inl ValueError" "pearson n_x yr = Inl ValueError"
  using assms
  by (simp_all add: cosine_def cosine_acc_def msd_def msd_acc_def msdClone_def msdClone_acc_def
        pearson_def pearson_acc_def)

lemma same_traversal:
  assumes "\<And>(upd :: nat \<times> nat \<Rightarrow> int \<Rightarrow> int \<Rightarrow> accs \<Rightarrow> accs) s.
             accumulate n_x upd yr' s = accumulate n_x upd yr s"
  shows "cosine_acc n_x yr' = cosine_acc n_x yr" "cosine n_x yr' = cosine n_x yr"
    "msd_acc n_x yr' = msd_acc n_x yr" "msd n_x yr' = msd n_x yr"
    "mean_diff_acc n_x yr' = mean_diff_acc n_x yr"
    "compute_mean_diff n_x yr' = compute_mean_diff n_x yr"
    "msdClone_acc n_x yr' = msdClone_acc n_x yr" "msdClone n_x yr' = msdClone n_x yr"
    "pearson_acc n_x yr' = pearson_acc n_x yr" "pearson n_x yr' = pearson n_x yr"
proof -
  show c: "cosine_acc n_x yr' = cosine_acc n_x yr"
    by (simp add: cosine_acc_def assms)
  show "cosine n_x yr' = cosine n_x yr"
    by (simp add: cosine_def c)
  show m: "msd_acc n_x yr' = msd_acc n_x yr"
    by (simp add: msd_acc_def assms)
  show "msd n_x yr' = msd n_x yr"
    by (simp add: msd_def m)
  show d: "mean_diff_acc n_x yr' = mean_diff_acc n_x yr"
    by (simp add: mean_diff_acc_def assms)
  show e: "compute_mean_diff n_x yr' = compute_mean_diff n_x yr"
    by (simp add: compute_mean_diff_def d)
  show k: "msdClone_acc n_x yr' = msdClone_acc n_x yr"
    by (simp add: msdClone_acc_def e assms split: sum.splits)
  show "msdClone n_x yr' = msdClone n_x yr"
    by (simp add: msdClone_def k)
  show p: "pearson_acc n_x yr' = pearson_acc n_x yr"
    by (simp add: pearson_acc_def assms)
  show "pearson n_x yr' = pearson n_x yr"
    by (simp add: pearson_def p)
qed

text \<open>
  A float rating counts as the integer it is truncated to: every function gives on \<open>yr\<close>
  what it gives on the integer ratings of \<open>yr\<close>.
\<close>

lemma negative_n_x_acc:
  assumes "n_x < 0"
  shows "cosine_acc n_x yr = Inl ValueError" "msd_acc n_x yr = Inl ValueError"
    "mean_diff_acc n_x yr = Inl ValueError" "compute_mean_diff n_x yr = Inl ValueError"
    "msdClone_acc n_x yr = Inl ValueError" "pearson_acc n_x yr = Inl ValueError"
  using assms
  by (simp_all add: cosine_acc_def msd_acc_def mean_diff_acc_def compute_mean_diff_def
        msdClone_acc_def pearson_acc_def)

lemma float_ratings_truncated:
  "cosine_acc n_x (py_yr (int_ratings yr)) = cosine_acc n_x yr"
  "cosine n_x (py_yr (int_ratings yr)) = cosine n_x yr"
  "msd_acc n_x (py_yr (int_ratings yr)) = msd_acc n_x yr"
  "msd n_x (py_yr (int_ratings yr)) = msd n_x yr"
  "mean_diff_acc n_x (py_yr (int_ratings yr)) = mean_diff_acc n_x yr"
  "compute_mean_diff n_x (py_yr (int_ratings yr)) = compute_mean_diff n_x yr"
  "msdClone_acc n_x (py_yr (int_ratings yr)) = msdClone_acc n_x yr"
  "msdClone n_x (py_yr (int_ratings yr)) = msdClone n_x yr"
  "pearson_acc n_x (py_yr (int_ratings yr)) = pearson_acc n_x yr"
  "pearson n_x (py_yr (int_ratings yr)) = pearson n_x yr"
proof -
  have eqs: "cosine_acc n_x (py_yr (int_ratings yr)) = cosine_acc n_x yr \<and>
    cosine n_x (py_yr (int_ratings yr)) = cosine n_x yr \<and>
    msd_acc n_x (py_yr (int_ratings yr)) = msd_acc n_x yr \<and>
    msd n_x (py_yr (int_ratings yr)) = msd n_x yr \<and>
    mean_diff_acc n_x (py_yr (int_ratings yr)) = mean_diff_acc n_x yr \<and>
    compute_mean_diff n_x (py_yr (int_ratings yr)) = compute_mean_diff n_x yr \<and>
    msdClone_acc n_x (py_yr (int_ratings yr)) = msdClone_acc n_x yr \<and>
    msdClone n_x (py_yr (int_ratings yr)) = msdClone n_x yr \<and>
    pearson_acc n_x (py_yr (int_ratings yr)) = pearson_acc n_x yr \<and>
    pearson n_x (py_yr (int_ratings yr)) = pearson n_x yr"
  proof (cases "0 \<le> n_x")
    case True
    note t = same_traversal[of n_x "py_yr (int_ratings yr)" yr, OF accumulate_result(4)[OF True]]
    show ?thesis by (intro conjI) (rule t)+
  next
    case False
    then have n: "n_x < 0" by simp
    show ?thesis by (simp only: negative_n_x[OF n] negative_n_x_acc[OF n] simp_thms)
  qed
  show "cosine_acc n_x (py_yr (int_ratings yr)) = cosine_acc n_x yr"
    by (rule eqs[THEN conjunct1])
  show "cosine n_x (py_yr (int_ratings yr)) = cosine n_x yr"
    by (rule eqs[THEN conjunct2, THEN conjunct1])
  show "msd_acc n_x (py_yr (int_ratings yr)) = msd_acc n_x yr"
    by (rule eqs[THEN conjunct2, THEN conjunct2, THEN conjunct1])
  show "msd n_x (py_yr (int_ratings yr)) = msd n_x yr"
    by (rule eqs[THEN conjunct2, THEN conjunct2, THEN conjunct2, THEN conjunct1])
  show "mean_diff_acc n_x (py_yr (int_ratings yr)) = mean_diff_acc n_x yr"
    by (rule eqs[THEN conjunct2, THEN conjunct2, THEN conjunct2, THEN conjunct2, THEN conjunct1])
  show "compute_mean_diff n_x (py_yr (int_ratings yr)) = compute_mean_diff n_x yr"
    by (rule eqs[THEN conjunct2, THEN conjunct2, THEN conjunct2, THEN conjunct2, THEN conjunct2, THEN conjunct1])
  show "msdClone_acc n_x (py_yr (int_ratings yr)) = msdClone_acc n_x yr"
    by (rule eqs[THEN conjunct2, THEN conjunct2, THEN conjunct2, THEN conjunct2, THEN conjunct2, THEN conjunct2, THEN conjunct1])
  show "msdClone n_x (py_yr (int_ratings yr)) = msdClone n_x yr"
    by (rule eqs[THEN conjunct2, THEN conjunct2, THEN conjunct2, THEN conjunct2, THEN conjunct2, THEN conjunct2, THEN conjunct2, THEN conjunct1])
  show "pearson_acc n_x (py_yr (int_ratings yr)) = pearson_acc n_x yr"
    by (rule eqs[THEN conjunct2, THEN conjunct2, THEN conjunct2, THEN conjunct2, THEN conjunct2, THEN conjunct2, THEN conjunct2, THEN conjunct2, THEN conjunct1])
  show "pearson n_x (py_yr (int_ratings yr)) = pearson n_x yr"
    by (rule eqs[THEN conjunct2, THEN conjunct2, THEN conjunct2, THEN conjunct2, THEN conjunct2, THEN conjunct2, THEN conjunct2, THEN conjunct2, THEN conjunct2])
qed

lemma int_ratings_py: "int_ratings (py_yr yr) = yr"
proof -
  have "map (\<lambda>(x, v). (x, rating_of v)) (map (\<lambda>(x, r). (x, PyInt r)) rs) = rs"
    for rs :: "(int \<times> int) list"
    by (induction rs) auto
  then show ?thesis
    unfolding int_ratings_def py_yr_def by (induction yr) auto
qed

lemma float_example:
  "int_ratings float_yr = [(0, [(0, 3), (1, - 2)])]"
  "msd 2 float_yr = msd 2 (py_yr [(0 :: nat, [(0, 3), (1, - 2)])])"
proof -
  show i: "int_ratings float_yr = [(0, [(0, 3), (1, - 2)])]"
    by (simp add: int_ratings_def float_yr_def py_trunc_def)
  show "msd 2 float_yr = msd 2 (py_yr [(0 :: nat, [(0, 3), (1, - 2)])])"
    using float_ratings_truncated(4)[of 2 float_yr] by (simp only: i)
qed

section \<open>msd\<close>

lemma msd_fill_cell:
  "msd_fill n a (i, j) =
     (let cell = (\<lambda>i j. if sq_diff a (i, j) = 0 then of_int (freq a (i, j))
                         else of_int (freq a (i, j)) / sq_diff a (i, j))
      in if i = j then (if i < n then 100 else 0)
         else if i < j then (if j < n then cell i j else 0)
         else (if i < n then cell j i else 0))"
proof -
  have "msd_fill n a (i, j) =
     for_range 0 n (\<lambda>xi s. for_range (Suc xi) n
        (\<lambda>xj sim.
         let sim =
           (if sq_diff a (xi, xj) = 0 then sim((xi, xj) := of_int (freq a (xi, xj)))
            else sim((xi, xj) := of_int (freq a (xi, xj)) / sq_diff a (xi, xj)))
         in sim((xj, xi) := sim (xi, xj))) (s((xi, xi) := 100))) (\<lambda>_. 0) (i, j)"
    by (simp add: msd_fill_def)
  also have "\<dots> =
     (let cell = (\<lambda>i j. if sq_diff a (i, j) = 0 then of_int (freq a (i, j))
                         else of_int (freq a (i, j)) / sq_diff a (i, j))
      in if i = j then (if i < n then 100 else 0)
         else if i < j then (if i < n \<and> j < n \<and> True then cell i j else 0)
         else (if j < n \<and> i < n \<and> True then cell j i else 0))"
    unfolding Let_def by (rule outer_fill) auto
  finally show ?thesis by (auto simp: Let_def)
qed

lemma msd_acc_wrapped:
  assumes wf: "well_formed n_x yr" and n: "n_x \<le> 2 ^ 31" and fit: "ratings_fit yr"
  shows "msd_acc n_x (py_yr yr) = Inr (traverse msd_step yr zeros)"
    and "sq_diff (traverse msd_step yr zeros) (i, j) =
           co_sum (\<lambda>ri rj. of_int (c_long ((c_int (ri - rj))\<^sup>2))) yr i j"
    and "freq (traverse msd_step yr zeros) (i, j) = c_long (co_freq yr i j)"
proof -
  from wf have "0 \<le> n_x" by (simp add: well_formed_def)
  then show "msd_acc n_x (py_yr yr) = Inr (traverse msd_step yr zeros)"
    by (simp add: msd_acc_def accumulate_py[OF wf n fit])
  show "sq_diff (traverse msd_step yr zeros) (i, j) =
           co_sum (\<lambda>ri rj. of_int (c_long ((c_int (ri - rj))\<^sup>2))) yr i j"
    by (subst traverse_co_sum[OF wf, where f = "\<lambda>ij r1 r2. of_int (c_long ((c_int (r1 - r2))\<^sup>2))"])
       (simp_all add: msd_step_def zeros_def)
  show "freq (traverse msd_step yr zeros) (i, j) = c_long (co_freq yr i j)"
    by (subst traverse_co_sum_long[OF wf, where f = "\<lambda>ij r1 r2. 1"])
       (simp_all add: msd_step_def zeros_def co_sum_count)
qed


lemma example_facts:
  "well_formed 3 example_yr" "diff_range 3 example_yr"
  "cosine_range 3 5 example_yr" "pearson_range 3 5 example_yr"
  by (simp_all add: well_formed_def diff_range_def cosine_range_def pearson_range_def
        ratings_le_def example_yr_def)

lemma co_rated_example:
  "co_rated example_yr 0 1 = [(4, 4), (5, 5)]"
  "co_rated example_yr 0 2 = [(4, 1)]"
  "co_rated example_yr 1 2 = [(4, 1)]"
  "co_rated example_yr 0 (Suc 0) = [(4, 4), (5, 5)]"
  "co_rated example_yr (Suc 0) 2 = [(4, 1)]"
  by (simp_all add: co_rated_def example_yr_def)




lemma wrap_values:
  "c_int 2147483649 = - 2147483647" "c_int 2147483648 = - 2147483648"
  "c_int 2147488281 = - 2147479015" "c_long 18446744073709551616 = 0"
  by (simp_all add: c_int_def c_long_def)



section \<open>compute\_mean\_diff\<close>





lemma mean_diff_acc_wrapped:
  assumes wf: "well_formed n_x yr" and n: "n_x \<le> 2 ^ 31" and fit: "ratings_fit yr"
  shows "mean_diff_acc n_x (py_yr yr) = Inr (traverse mean_diff_step yr zeros)"
    and "diff (traverse mean_diff_step yr zeros) (i, j) =
           co_sum (\<lambda>ri rj. of_int (c_int (ri - rj))) yr i j"
    and "freq (traverse mean_diff_step yr zeros) (i, j) = c_long (co_freq yr i j)"
proof -
  from wf have "0 \<le> n_x" by (simp add: well_formed_def)
  then show "mean_diff_acc n_x (py_yr yr) = Inr (traverse mean_diff_step yr zeros)"
    by (simp add: mean_diff_acc_def accumulate_py[OF wf n fit])
  show "diff (traverse mean_diff_step yr zeros) (i, j) =
           co_sum (\<lambda>ri rj. of_int (c_int (ri - rj))) yr i j"
    by (subst traverse_co_sum[OF wf, where f = "\<lambda>ij r1 r2. of_int (c_int (r1 - r2))"])
       (simp_all add: mean_diff_step_def zeros_def)
  show "freq (traverse mean_diff_step yr zeros) (i, j) = c_long (co_freq yr i j)"
    by (subst traverse_co_sum_long[OF wf, where f = "\<lambda>ij r1 r2. 1"])
       (simp_all add: mean_diff_step_def zeros_def co_sum_count)
qed


lemma compute_mean_diff_wrapped:
  assumes wf: "well_formed n_x yr" and n: "n_x \<le> 2 ^ 31" and fit: "ratings_fit yr"
  shows "compute_mean_diff n_x (py_yr yr) =
           Inr (mean_diff_fill (nat n_x) (traverse mean_diff_step yr zeros))"
  by (simp add: compute_mean_diff_def mean_diff_acc_wrapped(1)[OF wf n fit])










section \<open>msdClone\<close>

lemma msdClone_acc_wrapped:
  assumes wf: "well_formed n_x yr" and n: "n_x \<le> 2 ^ 31" and fit: "ratings_fit yr"
  defines "md \<equiv> mean_diff_fill (nat n_x) (traverse mean_diff_step yr zeros)"
  shows "msdClone_acc n_x (py_yr yr) = Inr (traverse (msdClone_step md) yr zeros)"
    and "sq_diff (traverse (msdClone_step md) yr zeros) (i, j) =
           co_sum (\<lambda>ri rj. (of_int (c_int (ri - rj)) - md (i, j))\<^sup>2) yr i j"
    and "freq (traverse (msdClone_step md) yr zeros) (i, j) = c_long (co_freq yr i j)"
proof -
  from wf have "0 \<le> n_x" by (simp add: well_formed_def)
  then show "msdClone_acc n_x (py_yr yr) = Inr (traverse (msdClone_step md) yr zeros)"
    by (simp add: msdClone_acc_def compute_mean_diff_wrapped[OF wf n fit]
          accumulate_py[OF wf n fit] md_def)
  show "sq_diff (traverse (msdClone_step md) yr zeros) (i, j) =
           co_sum (\<lambda>ri rj. (of_int (c_int (ri - rj)) - md (i, j))\<^sup>2) yr i j"
    by (subst traverse_co_sum[OF wf, where f = "\<lambda>ij r1 r2. (of_int (c_int (r1 - r2)) - md ij)\<^sup>2"])
       (simp_all add: msdClone_step_def zeros_def)
  show "freq (traverse (msdClone_step md) yr zeros) (i, j) = c_long (co_freq yr i j)"
    by (subst traverse_co_sum_long[OF wf, where f = "\<lambda>ij r1 r2. 1"])
       (simp_all add: msdClone_step_def zeros_def co_sum_count)
qed









section \<open>cosine\<close>

lemma cosine_fill_cell:
  "cosine_fill n a (i, j) =
     (let cell = (\<lambda>i j. if freq a (i, j) = 0 then Num 0
                         else np_div (prods a (i, j))
                                (np_sqrt (c_long (sqi a (i, j) * sqj a (i, j)))))
      in if i = j then (if i < n then Num 1 else Num 0)
         else if i < j then (if j < n then cell i j else Num 0)
         else (if i < n then cell j i else Num 0))"
proof -
  have "cosine_fill n a (i, j) =
     for_range 0 n (\<lambda>xi s. for_range (Suc xi) n
        (\<lambda>xj sim.
         let sim =
           (if freq a (xi, xj) = 0 then sim((xi, xj) := Num 0)
            else
              let denum = np_sqrt (c_long (sqi a (xi, xj) * sqj a (xi, xj)))
              in sim((xi, xj) := np_div (prods a (xi, xj)) denum))
         in sim((xj, xi) := sim (xi, xj))) (s((xi, xi) := Num 1))) (\<lambda>_. Num 0) (i, j)"
    by (simp add: cosine_fill_def)
  also have "\<dots> =
     (let cell = (\<lambda>i j. if freq a (i, j) = 0 then Num 0
                         else np_div (prods a (i, j))
                                (np_sqrt (c_long (sqi a (i, j) * sqj a (i, j)))))
      in if i = j then (if i < n then Num 1 else Num 0)
         else if i < j then (if i < n \<and> j < n \<and> True then cell i j else Num 0)
         else (if j < n \<and> i < n \<and> True then cell j i else Num 0))"
    unfolding Let_def by (rule outer_fill) auto
  finally show ?thesis by (auto simp: Let_def)
qed

lemma cosine_acc_wrapped:
  assumes wf: "well_formed n_x yr" and n: "n_x \<le> 2 ^ 31" and fit: "ratings_fit yr"
  shows "cosine_acc n_x (py_yr yr) = Inr (traverse cosine_step yr zeros)"
    and "freq (traverse cosine_step yr zeros) (i, j) = c_long (co_freq yr i j)"
    and "prods (traverse cosine_step yr zeros) (i, j) =
           c_long (co_sum (\<lambda>ri rj. c_int (ri * rj)) yr i j)"
    and "sqi (traverse cosine_step yr zeros) (i, j) =
           c_long (co_sum (\<lambda>ri rj. c_long (ri\<^sup>2)) yr i j)"
    and "sqj (traverse cosine_step yr zeros) (i, j) =
           c_long (co_sum (\<lambda>ri rj. c_long (rj\<^sup>2)) yr i j)"
proof -
  from wf have "0 \<le> n_x" by (simp add: well_formed_def)
  then show "cosine_acc n_x (py_yr yr) = Inr (traverse cosine_step yr zeros)"
    by (simp add: cosine_acc_def accumulate_py[OF wf n fit])
  show "freq (traverse cosine_step yr zeros) (i, j) = c_long (co_freq yr i j)"
    by (subst traverse_co_sum_long[OF wf, where f = "\<lambda>ij r1 r2. 1"])
       (simp_all add: cosine_step_def zeros_def co_sum_count)
  show "prods (traverse cosine_step yr zeros) (i, j) =
           c_long (co_sum (\<lambda>ri rj. c_int (ri * rj)) yr i j)"
    by (subst traverse_co_sum_long[OF wf, where f = "\<lambda>ij r1 r2. c_int (r1 * r2)"])
       (simp_all add: cosine_step_def zeros_def)
  show "sqi (traverse cosine_step yr zeros) (i, j) =
           c_long (co_sum (\<lambda>ri rj. c_long (ri\<^sup>2)) yr i j)"
    by (subst traverse_co_sum_long[OF wf, where f = "\<lambda>ij r1 r2. c_long (r1\<^sup>2)"])
       (simp_all add: cosine_step_def zeros_def)
  show "sqj (traverse cosine_step yr zeros) (i, j) =
           c_long (co_sum (\<lambda>ri rj. c_long (rj\<^sup>2)) yr i j)"
    by (subst traverse_co_sum_long[OF wf, where f = "\<lambda>ij r1 r2. c_long (r2\<^sup>2)"])
       (simp_all add: cosine_step_def zeros_def)
qed

text \<open>What the range of \<^verbatim>\<open>cosine\<close> bounds.\<close>

lemma c_long_small: "0 \<le> k \<Longrightarrow> k < 2 ^ 31 \<Longrightarrow> c_long k = k"
  by (rule c_long_id) simp_all

lemma scaled_bound:
  fixes N B F :: int
  assumes "1 \<le> N" and "0 \<le> F" and "N * F < B"
  shows "F < B"
proof -
  have "1 * F \<le> N * F" using assms(1,2) by (intro mult_right_mono) simp_all
  with assms(3) show ?thesis by simp
qed

lemma square_bound:
  fixes a R :: int
  assumes "\<bar>a\<bar> \<le> R"
  shows "a\<^sup>2 \<le> R\<^sup>2" and "0 \<le> a\<^sup>2"
proof -
  have "\<bar>a\<bar> * \<bar>a\<bar> \<le> R * R" using assms by (intro mult_mono) simp_all
  then show "a\<^sup>2 \<le> R\<^sup>2" by (simp add: power2_eq_square)
  show "0 \<le> a\<^sup>2" by simp
qed

lemma product_bound:
  fixes a b R :: int
  assumes "\<bar>a\<bar> \<le> R" and "\<bar>b\<bar> \<le> R"
  shows "\<bar>a * b\<bar> \<le> R\<^sup>2"
proof -
  have "\<bar>a\<bar> * \<bar>b\<bar> \<le> R * R" using assms by (intro mult_mono) simp_all
  then show ?thesis by (simp add: power2_eq_square abs_mult)
qed

lemma self_le_square:
  fixes R :: int
  assumes "1 \<le> R"
  shows "R \<le> R\<^sup>2"
proof -
  have "R * 1 \<le> R * R" using assms by (intro mult_left_mono) simp_all
  then show ?thesis by (simp add: power2_eq_square)
qed

lemma cosine_range_bounds:
  assumes rg: "cosine_range n_x R yr" and ne: "yr \<noteq> []"
  shows "R\<^sup>2 < 2 ^ 31" and "R < 2 ^ 31"
proof -
  from ne have N: "1 \<le> int (length yr)" by (cases yr) simp_all
  from rg have R: "1 \<le> R" and b: "int (length yr) * R\<^sup>2 < 2 ^ 31"
    by (simp_all add: cosine_range_def)
  show "R\<^sup>2 < 2 ^ 31" by (rule scaled_bound[OF N _ b]) simp
  with self_le_square[OF R] show "R < 2 ^ 31" by simp
qed

lemma cosine_range_fit:
  assumes rg: "cosine_range n_x R yr"
  shows "ratings_fit yr"
proof (cases "yr = []")
  case True
  then show ?thesis by (simp add: ratings_fit_def)
next
  case False
  from rg have "ratings_le R yr" by (simp add: cosine_range_def)
  then show ?thesis by (rule ratings_le_fit) (rule cosine_range_bounds[OF rg False])
qed

lemma co_rated_nonempty: "(ri, rj) \<in> set (co_rated yr i j) \<Longrightarrow> yr \<noteq> []"
  by (auto simp: co_rated_def List.map_filter_def)

lemma cosine_range_terms:
  assumes rg: "cosine_range n_x R yr" and mem: "(ri, rj) \<in> set (co_rated yr i j)"
  shows "c_int (ri * rj) = ri * rj" and "c_long (ri\<^sup>2) = ri\<^sup>2" and "c_long (rj\<^sup>2) = rj\<^sup>2"
proof -
  from rg have le: "ratings_le R yr" by (simp add: cosine_range_def)
  note r = co_rated_le[OF le mem]
  note b = cosine_range_bounds(1)[OF rg co_rated_nonempty[OF mem]]
  from product_bound[OF r] b show "c_int (ri * rj) = ri * rj"
    by (intro c_int_abs_id) simp
  from square_bound[OF r(1)] b show "c_long (ri\<^sup>2) = ri\<^sup>2"
    by (intro c_long_small) simp_all
  from square_bound[OF r(2)] b show "c_long (rj\<^sup>2) = rj\<^sup>2"
    by (intro c_long_small) simp_all
qed

lemma sum_list_nonneg_int:
  fixes g :: "'b \<Rightarrow> int"
  assumes "\<And>x. x \<in> set xs \<Longrightarrow> 0 \<le> g x"
  shows "0 \<le> (\<Sum>x\<leftarrow>xs. g x)"
  using assms by (induction xs) simp_all

lemma co_sum_square_nonneg:
  "0 \<le> co_sum (\<lambda>ri rj. ri\<^sup>2) yr i j" "0 \<le> co_sum (\<lambda>ri rj. rj\<^sup>2) yr i j"
  unfolding co_sum_def by (rule sum_list_nonneg_int, auto)+

lemma cosine_range_sums:
  assumes rg: "cosine_range n_x R yr"
  shows "\<bar>co_sum (\<lambda>ri rj. ri * rj) yr i j\<bar> < 2 ^ 31"
    and "co_sum (\<lambda>ri rj. ri\<^sup>2) yr i j < 2 ^ 31"
    and "co_sum (\<lambda>ri rj. rj\<^sup>2) yr i j < 2 ^ 31"
    and "co_freq yr i j < 2 ^ 31"
proof -
  from rg have le: "ratings_le R yr" and b: "int (length yr) * R\<^sup>2 < 2 ^ 31" and R: "1 \<le> R"
    by (simp_all add: cosine_range_def)
  have "\<bar>co_sum (\<lambda>ri rj. ri * rj) yr i j\<bar> \<le> int (length yr) * R\<^sup>2"
    by (rule co_sum_abs_bound[OF le]) (simp_all add: product_bound)
  with b show "\<bar>co_sum (\<lambda>ri rj. ri * rj) yr i j\<bar> < 2 ^ 31" by simp
  have "\<bar>co_sum (\<lambda>ri rj. ri\<^sup>2) yr i j\<bar> \<le> int (length yr) * R\<^sup>2"
    by (rule co_sum_abs_bound[OF le]) (simp_all add: square_bound)
  with b show "co_sum (\<lambda>ri rj. ri\<^sup>2) yr i j < 2 ^ 31" by simp
  have "\<bar>co_sum (\<lambda>ri rj. rj\<^sup>2) yr i j\<bar> \<le> int (length yr) * R\<^sup>2"
    by (rule co_sum_abs_bound[OF le]) (simp_all add: square_bound)
  with b show "co_sum (\<lambda>ri rj. rj\<^sup>2) yr i j < 2 ^ 31" by simp
  have "int (length yr) * 1 \<le> int (length yr) * R\<^sup>2"
    using R self_le_square[OF R] by (intro mult_left_mono) simp_all
  with b co_freq_le[of yr i j] show "co_freq yr i j < 2 ^ 31" by simp
qed

lemma cosine_acc_ok:
  assumes wf: "well_formed n_x yr" and rg: "cosine_range n_x R yr"
  shows "cosine_acc n_x (py_yr yr) = Inr (traverse cosine_step yr zeros)"
    and "freq (traverse cosine_step yr zeros) (i, j) = co_freq yr i j"
    and "prods (traverse cosine_step yr zeros) (i, j) = co_sum (\<lambda>ri rj. ri * rj) yr i j"
    and "sqi (traverse cosine_step yr zeros) (i, j) = co_sum (\<lambda>ri rj. ri\<^sup>2) yr i j"
    and "sqj (traverse cosine_step yr zeros) (i, j) = co_sum (\<lambda>ri rj. rj\<^sup>2) yr i j"
proof -
  from rg have n: "n_x \<le> 2 ^ 31" by (simp add: cosine_range_def)
  note w = cosine_acc_wrapped[OF wf n cosine_range_fit[OF rg]]
  note s = cosine_range_sums[OF rg, of i j]
  show "cosine_acc n_x (py_yr yr) = Inr (traverse cosine_step yr zeros)" by (rule w)
  from s(4) co_freq_nonneg[of yr i j]
  have "c_long (co_freq yr i j) = co_freq yr i j" by (intro c_long_id) simp_all
  then show "freq (traverse cosine_step yr zeros) (i, j) = co_freq yr i j"
    by (simp only: w(2))
  have "co_sum (\<lambda>ri rj. c_int (ri * rj)) yr i j = co_sum (\<lambda>ri rj. ri * rj) yr i j"
    by (rule co_sum_cong) (rule cosine_range_terms[OF rg])
  moreover from s(1) have "c_long (co_sum (\<lambda>ri rj. ri * rj) yr i j) =
      co_sum (\<lambda>ri rj. ri * rj) yr i j"
    by (intro c_long_abs_id) simp
  ultimately show "prods (traverse cosine_step yr zeros) (i, j) =
      co_sum (\<lambda>ri rj. ri * rj) yr i j"
    by (simp only: w(3))
  have "co_sum (\<lambda>ri rj. c_long (ri\<^sup>2)) yr i j = co_sum (\<lambda>ri rj. ri\<^sup>2) yr i j"
    by (rule co_sum_cong) (rule cosine_range_terms[OF rg])
  moreover from s(2) co_sum_square_nonneg(1)[of yr i j]
  have "c_long (co_sum (\<lambda>ri rj. ri\<^sup>2) yr i j) = co_sum (\<lambda>ri rj. ri\<^sup>2) yr i j"
    by (intro c_long_id) simp_all
  ultimately show "sqi (traverse cosine_step yr zeros) (i, j) = co_sum (\<lambda>ri rj. ri\<^sup>2) yr i j"
    by (simp only: w(4))
  have "co_sum (\<lambda>ri rj. c_long (rj\<^sup>2)) yr i j = co_sum (\<lambda>ri rj. rj\<^sup>2) yr i j"
    by (rule co_sum_cong) (rule cosine_range_terms[OF rg])
  moreover from s(3) co_sum_square_nonneg(2)[of yr i j]
  have "c_long (co_sum (\<lambda>ri rj. rj\<^sup>2) yr i j) = co_sum (\<lambda>ri rj. rj\<^sup>2) yr i j"
    by (intro c_long_id) simp_all
  ultimately show "sqj (traverse cosine_step yr zeros) (i, j) = co_sum (\<lambda>ri rj. rj\<^sup>2) yr i j"
    by (simp only: w(5))
qed

lemma cosine_range_product:
  assumes rg: "cosine_range n_x R yr"
  shows "c_long (co_sum (\<lambda>ri rj. ri\<^sup>2) yr i j * co_sum (\<lambda>ri rj. rj\<^sup>2) yr i j) =
         co_sum (\<lambda>ri rj. ri\<^sup>2) yr i j * co_sum (\<lambda>ri rj. rj\<^sup>2) yr i j"
proof -
  let ?a = "co_sum (\<lambda>ri rj. ri\<^sup>2) yr i j" and ?b = "co_sum (\<lambda>ri rj. rj\<^sup>2) yr i j"
  note s = cosine_range_sums[OF rg, of i j] and p = co_sum_square_nonneg[of yr i j]
  have "?a * ?b \<le> 2 ^ 31 * 2 ^ 31" using s(2,3) p by (intro mult_mono) simp_all
  moreover have "0 \<le> ?a * ?b" using p by simp
  ultimately show ?thesis by (intro c_long_id) simp_all
qed


lemma cosine_spec_int:
  assumes wf: "well_formed n_x yr" and rg: "cosine_range n_x R yr"
  shows "\<exists>acc sim.
     cosine_acc n_x (py_yr yr) = Inr acc \<and> cosine n_x (py_yr yr) = Inr sim \<and>
     (\<forall>i j. freq acc (i, j) = co_freq yr i j \<and>
            prods acc (i, j) = co_sum (\<lambda>ri rj. ri * rj) yr i j \<and>
            sqi acc (i, j) = co_sum (\<lambda>ri rj. ri\<^sup>2) yr i j \<and>
            sqj acc (i, j) = co_sum (\<lambda>ri rj. rj\<^sup>2) yr i j) \<and>
     (\<forall>i j. i < j \<and> j < nat n_x \<longrightarrow>
        sim (i, j) = (if 0 < freq acc (i, j)
                      then np_div (prods acc (i, j)) (np_sqrt (sqi acc (i, j) * sqj acc (i, j)))
                      else Num 0)) \<and>
     (\<forall>i. i < nat n_x \<longrightarrow> sim (i, i) = Num 1)"
proof (intro exI conjI)
  let ?acc = "traverse cosine_step yr zeros"
  note ok = cosine_acc_ok[OF wf rg]
  show "cosine_acc n_x (py_yr yr) = Inr ?acc"
    by (rule ok)
  show "cosine n_x (py_yr yr) = Inr (cosine_fill (nat n_x) ?acc)"
    by (simp add: cosine_def ok(1))
  show "\<forall>i j. freq ?acc (i, j) = co_freq yr i j \<and>
            prods ?acc (i, j) = co_sum (\<lambda>ri rj. ri * rj) yr i j \<and>
            sqi ?acc (i, j) = co_sum (\<lambda>ri rj. ri\<^sup>2) yr i j \<and>
            sqj ?acc (i, j) = co_sum (\<lambda>ri rj. rj\<^sup>2) yr i j"
    by (intro allI conjI) (rule ok)+
  have pos: "0 < freq ?acc (i, j) \<longleftrightarrow> freq ?acc (i, j) \<noteq> 0" for i j
    using co_freq_nonneg[of yr i j] by (auto simp: ok(2))
  have prod: "c_long (sqi ?acc (i, j) * sqj ?acc (i, j)) = sqi ?acc (i, j) * sqj ?acc (i, j)"
    for i j
    by (simp only: ok(4,5) cosine_range_product[OF rg])
  show "\<forall>i j. i < j \<and> j < nat n_x \<longrightarrow>
        cosine_fill (nat n_x) ?acc (i, j) =
          (if 0 < freq ?acc (i, j)
           then np_div (prods ?acc (i, j)) (np_sqrt (sqi ?acc (i, j) * sqj ?acc (i, j)))
           else Num 0)"
    unfolding pos by (simp add: cosine_fill_cell prod)
  show "\<forall>i. i < nat n_x \<longrightarrow> cosine_fill (nat n_x) ?acc (i, i) = Num 1"
    by (simp add: cosine_fill_cell)
qed

text \<open>
  Claim C5, as amended. A rating counts as the integer that its assignment to a C \<^verbatim>\<open>int\<close>
  gives (a float is truncated). For a well-formed input whose ratings are in the range of
  \<open>cosine_range\<close>, \<^verbatim>\<open>cosine\<close> returns a matrix. Its accumulators hold, for every pair, the
  number of co-rated \<open>y\<close>s and the sums of \<open>r\<^sub>i * r\<^sub>j\<close>, \<open>r\<^sub>i\<^sup>2\<close> and \<open>r\<^sub>j\<^sup>2\<close> over the co-rated \<open>y\<close>s
  only. For \<open>i < j\<close> the entry is \<open>prods[i,j] / sqrt(sqi[i,j] * sqj[i,j])\<close> when
  \<open>freq[i,j] > 0\<close> and 0 when \<open>freq[i,j] = 0\<close>; every diagonal entry is the constant 1.
\<close>

theorem cosine_spec:
  assumes wf: "well_formed n_x (int_ratings yr)" and rg: "cosine_range n_x R (int_ratings yr)"
  shows "\<exists>acc sim.
     cosine_acc n_x yr = Inr acc \<and> cosine n_x yr = Inr sim \<and>
     (\<forall>i j. freq acc (i, j) = co_freq (int_ratings yr) i j \<and>
            prods acc (i, j) = co_sum (\<lambda>ri rj. ri * rj) (int_ratings yr) i j \<and>
            sqi acc (i, j) = co_sum (\<lambda>ri rj. ri\<^sup>2) (int_ratings yr) i j \<and>
            sqj acc (i, j) = co_sum (\<lambda>ri rj. rj\<^sup>2) (int_ratings yr) i j) \<and>
     (\<forall>i j. i < j \<and> j < nat n_x \<longrightarrow>
        sim (i, j) = (if 0 < freq acc (i, j)
                      then np_div (prods acc (i, j)) (np_sqrt (sqi acc (i, j) * sqj acc (i, j)))
                      else Num 0)) \<and>
     (\<forall>i. i < nat n_x \<longrightarrow> sim (i, i) = Num 1)"
  using assms
  by (rule cosine_spec_int[where yr = "int_ratings yr", unfolded float_ratings_truncated])

lemma np_sqrt_square: "0 \<le> k \<Longrightarrow> np_sqrt (k * k) = Num (of_int k)"
  by (simp add: np_sqrt_def)

lemma np_sqrt_values:
  "np_sqrt 1681 = Num 41" "np_sqrt 4611705917032334961 = Num 2147488281"
  using np_sqrt_square[of 41] np_sqrt_square[of 2147488281] by simp_all

theorem cosine_spec_witness:
  "well_formed 3 example_yr \<and> cosine_range 3 5 example_yr \<and>
   (\<exists>sim. cosine 3 (py_yr example_yr) = Inr sim \<and> sim (0, 1) = Num 1 \<and> sim (2, 2) = Num 1)"
  using cosine_spec[where yr = "py_yr example_yr", unfolded int_ratings_py, OF example_facts(1,3)]
  by (auto simp: co_sum_def co_freq_def co_rated_example example_facts np_sqrt_values)

lemma prod_wrap_facts:
  "well_formed 2 prod_wrap_yr" "ratings_fit prod_wrap_yr"
  "co_rated prod_wrap_yr 0 (Suc 0) = [(46341, 46341)]"
  by (simp_all add: well_formed_def ratings_fit_def fits_int_def prod_wrap_yr_def co_rated_def)

text \<open>
  Claim C5 as stated fails: with the rating \<open>46341\<close> twice under one \<open>y\<close> the input is well
  formed and the sum of \<open>r\<^sub>i * r\<^sub>j\<close> over the one co-rated \<open>y\<close> is \<open>2147488281\<close>, but the product
  of the two C \<^verbatim>\<open>int\<close> wraps around: \<open>prods[0,1]\<close> is \<open>-2147479015\<close> and the entry is negative,
  where the quotient of the sums is 1.
\<close>

theorem cosine_wrap_counterexample:
  "well_formed 2 prod_wrap_yr \<and>
   co_sum (\<lambda>ri rj. ri * rj) prod_wrap_yr 0 1 = 2147488281 \<and>
   (\<exists>acc sim. cosine_acc 2 (py_yr prod_wrap_yr) = Inr acc \<and>
      cosine 2 (py_yr prod_wrap_yr) = Inr sim \<and>
      prods acc (0, 1) = - 2147479015 \<and> sqi acc (0, 1) = 2147488281 \<and>
      sqj acc (0, 1) = 2147488281 \<and> sim (0, 1) = Num (- 2147479015 / 2147488281))"
proof -
  have n: "(2::int) \<le> 2 ^ 31" by simp
  note w = cosine_acc_wrapped[OF prod_wrap_facts(1) n prod_wrap_facts(2)]
  let ?acc = "traverse cosine_step prod_wrap_yr zeros"
  have a: "cosine_acc 2 (py_yr prod_wrap_yr) = Inr ?acc" by (rule w)
  have f: "freq ?acc (0, Suc 0) = 1"
    using w(2)[of 0 "Suc 0"] by (simp add: co_freq_def prod_wrap_facts c_long_def)
  have p: "prods ?acc (0, Suc 0) = - 2147479015"
    using w(3)[of 0 "Suc 0"] by (simp add: co_sum_def prod_wrap_facts wrap_values c_long_def)
  have qi: "sqi ?acc (0, Suc 0) = 2147488281"
    using w(4)[of 0 "Suc 0"] by (simp add: co_sum_def prod_wrap_facts c_long_def)
  have qj: "sqj ?acc (0, Suc 0) = 2147488281"
    using w(5)[of 0 "Suc 0"] by (simp add: co_sum_def prod_wrap_facts c_long_def)
  have d: "np_sqrt (c_long (sqi ?acc (0, Suc 0) * sqj ?acc (0, Suc 0))) = Num 2147488281"
    by (simp add: qi qj c_long_def np_sqrt_values)
  have m: "cosine 2 (py_yr prod_wrap_yr) = Inr (cosine_fill 2 ?acc)"
    by (simp add: cosine_def a)
  have s: "cosine_fill 2 ?acc (0, Suc 0) = Num (- 2147479015 / 2147488281)"
    by (simp add: cosine_fill_cell f d p)
  have c: "co_sum (\<lambda>ri rj. ri * rj) prod_wrap_yr 0 (Suc 0) = 2147488281"
    by (simp add: co_sum_def prod_wrap_facts)
  from a m p qi qj s c prod_wrap_facts(1) show ?thesis by simp
qed

section \<open>The divisor of cosine\<close>

lemma sum_list_pos_int:
  fixes f :: "'b \<Rightarrow> int"
  assumes "xs \<noteq> []" and "\<And>x. x \<in> set xs \<Longrightarrow> 0 < f x"
  shows "0 < (\<Sum>x\<leftarrow>xs. f x)"
  using assms
proof (induction xs)
  case Nil
  then show ?case by simp
next
  case (Cons x xs)
  show ?case
  proof (cases "xs = []")
    case True
    with Cons.prems show ?thesis by simp
  next
    case False
    with Cons have "0 < (\<Sum>x\<leftarrow>xs. f x)" by simp
    moreover from Cons.prems have "0 < f x" by simp
    ultimately show ?thesis by simp
  qed
qed

lemma co_sum_squares_pos:
  assumes nz: "ratings_nonzero yr" and fr: "0 < co_freq yr i j"
  shows "0 < co_sum (\<lambda>ri rj. ri\<^sup>2) yr i j" and "0 < co_sum (\<lambda>ri rj. rj\<^sup>2) yr i j"
proof -
  from fr have ne: "co_rated yr i j \<noteq> []" by (auto simp: co_freq_def)
  have nonzero: "ri \<noteq> 0 \<and> rj \<noteq> 0" if "(ri, rj) \<in> set (co_rated yr i j)" for ri rj
    using co_rated_mem[OF that] nz by (fastforce simp: ratings_nonzero_def)
  show "0 < co_sum (\<lambda>ri rj. ri\<^sup>2) yr i j"
    unfolding co_sum_def using nonzero by (intro sum_list_pos_int[OF ne]) auto
  show "0 < co_sum (\<lambda>ri rj. rj\<^sup>2) yr i j"
    unfolding co_sum_def using nonzero by (intro sum_list_pos_int[OF ne]) auto
qed

lemma np_sqrt_eq_zero_iff: "np_sqrt k = Num 0 \<longleftrightarrow> k = 0"
  by (simp add: np_sqrt_def)

lemma zero_facts:
  "well_formed 2 zero_yr" "cosine_range 2 1 zero_yr" "pearson_range 2 1 zero_yr"
  "diff_range 2 zero_yr" "co_rated zero_yr 0 (Suc 0) = [(0, 0)]"
  by (simp_all add: well_formed_def cosine_range_def pearson_range_def diff_range_def
        ratings_le_def zero_yr_def co_rated_def)

lemma cosine_zero:
  "cosine 2 (py_yr zero_yr) = Inr (cosine_fill 2 (traverse cosine_step zero_yr zeros))"
  "freq (traverse cosine_step zero_yr zeros) (0, Suc 0) = 1"
  "sqi (traverse cosine_step zero_yr zeros) (0, Suc 0) = 0"
  "sqj (traverse cosine_step zero_yr zeros) (0, Suc 0) = 0"
  "cosine_fill 2 (traverse cosine_step zero_yr zeros) (0, Suc 0) = NaN"
  "cosine_fill 2 (traverse cosine_step zero_yr zeros) (Suc 0, 0) = NaN"
proof -
  let ?acc = "traverse cosine_step zero_yr zeros"
  note ok = cosine_acc_ok[OF zero_facts(1,2)]
  show "cosine 2 (py_yr zero_yr) = Inr (cosine_fill 2 ?acc)"
    by (simp add: cosine_def ok(1))
  show f: "freq ?acc (0, Suc 0) = 1"
    by (simp add: ok co_freq_def zero_facts)
  show qi: "sqi ?acc (0, Suc 0) = 0"
    by (simp add: ok co_sum_def zero_facts)
  show qj: "sqj ?acc (0, Suc 0) = 0"
    by (simp add: ok co_sum_def zero_facts)
  have p: "prods ?acc (0, Suc 0) = 0"
    by (simp add: ok co_sum_def zero_facts)
  show "cosine_fill 2 ?acc (0, Suc 0) = NaN"
    by (simp add: cosine_fill_cell f qi qj p np_sqrt_def c_long_0)
  show "cosine_fill 2 ?acc (Suc 0, 0) = NaN"
    by (simp add: cosine_fill_cell f qi qj p np_sqrt_def c_long_0)
qed

lemma cosine_divisor_int:
  "(well_formed n_x yr \<and> cosine_range n_x R yr \<and> ratings_nonzero yr \<and> 0 < co_freq yr i j \<longrightarrow>
      (\<exists>acc. cosine_acc n_x (py_yr yr) = Inr acc \<and> 0 < freq acc (i, j) \<and>
             np_sqrt (c_long (sqi acc (i, j) * sqj acc (i, j))) \<noteq> Num 0)) \<and>
   (\<exists>n_x R (yr :: nat int_yr) i j acc sim.
      well_formed n_x yr \<and> cosine_range n_x R yr \<and> i \<noteq> j \<and>
      cosine_acc n_x (py_yr yr) = Inr acc \<and> 0 < freq acc (i, j) \<and>
      np_sqrt (c_long (sqi acc (i, j) * sqj acc (i, j))) = Num 0 \<and>
      cosine n_x (py_yr yr) = Inr sim \<and> sim (i, j) = NaN)"
proof (intro conjI impI)
  assume h: "well_formed n_x yr \<and> cosine_range n_x R yr \<and> ratings_nonzero yr \<and>
             0 < co_freq yr i j"
  then have wf: "well_formed n_x yr" and rg: "cosine_range n_x R yr"
    and nz: "ratings_nonzero yr" and fr: "0 < co_freq yr i j"
    by simp_all
  let ?acc = "traverse cosine_step yr zeros"
  note ok = cosine_acc_ok[OF wf rg]
  from co_sum_squares_pos[OF nz fr]
  have "sqi ?acc (i, j) * sqj ?acc (i, j) \<noteq> 0"
    by (simp add: ok)
  moreover have "c_long (sqi ?acc (i, j) * sqj ?acc (i, j)) = sqi ?acc (i, j) * sqj ?acc (i, j)"
    by (simp only: ok(4,5) cosine_range_product[OF rg])
  ultimately have "np_sqrt (c_long (sqi ?acc (i, j) * sqj ?acc (i, j))) \<noteq> Num 0"
    by (simp only: np_sqrt_eq_zero_iff not_False_eq_True)
  with fr show "\<exists>acc. cosine_acc n_x (py_yr yr) = Inr acc \<and> 0 < freq acc (i, j) \<and>
             np_sqrt (c_long (sqi acc (i, j) * sqj acc (i, j))) \<noteq> Num 0"
    by (auto simp: ok)
next
  let ?acc = "traverse cosine_step zero_yr zeros"
  have "np_sqrt (c_long (sqi ?acc (0, Suc 0) * sqj ?acc (0, Suc 0))) = Num 0"
    by (simp add: cosine_zero np_sqrt_def c_long_0)
  moreover have "(0::nat) \<noteq> Suc 0" by simp
  moreover have "0 < freq ?acc (0, Suc 0)" by (simp add: cosine_zero)
  ultimately show "\<exists>n_x R (yr :: nat int_yr) i j acc sim.
      well_formed n_x yr \<and> cosine_range n_x R yr \<and> i \<noteq> j \<and>
      cosine_acc n_x (py_yr yr) = Inr acc \<and> 0 < freq acc (i, j) \<and>
      np_sqrt (c_long (sqi acc (i, j) * sqj acc (i, j))) = Num 0 \<and>
      cosine n_x (py_yr yr) = Inr sim \<and> sim (i, j) = NaN"
    using zero_facts(1,2) cosine_acc_ok(1)[OF zero_facts(1,2)] cosine_zero(1,5) by blast
qed

text \<open>
  Claim C10, as amended. In \<^verbatim>\<open>cosine\<close> only the co-rating count guards the division. A
  rating counts as the integer that its assignment to a C \<^verbatim>\<open>int\<close> gives (a float is
  truncated). For a well-formed input in the range of \<open>cosine_range\<close>, when every rating in
  \<open>yr\<close> is nonzero and \<open>freq[i,j] > 0\<close>, the divisor \<open>sqrt(sqi[i,j] * sqj[i,j])\<close> is nonzero.
  When ratings may be 0 there is a well-formed input in that range with \<open>i \<noteq> j\<close> and
  \<open>freq[i,j] > 0\<close> whose divisor is 0: the guard is passed and the entry is the not-a-number
  that \<open>0 / 0\<close> gives.
\<close>

theorem cosine_divisor:
  "(well_formed n_x (int_ratings yr) \<and> cosine_range n_x R (int_ratings yr) \<and>
    ratings_nonzero (int_ratings yr) \<and> 0 < co_freq (int_ratings yr) i j \<longrightarrow>
      (\<exists>acc. cosine_acc n_x yr = Inr acc \<and> 0 < freq acc (i, j) \<and>
             np_sqrt (c_long (sqi acc (i, j) * sqj acc (i, j))) \<noteq> Num 0)) \<and>
   (\<exists>n_x R (yr :: nat yr) i j acc sim.
      well_formed n_x (int_ratings yr) \<and> cosine_range n_x R (int_ratings yr) \<and> i \<noteq> j \<and>
      cosine_acc n_x yr = Inr acc \<and> 0 < freq acc (i, j) \<and>
      np_sqrt (c_long (sqi acc (i, j) * sqj acc (i, j))) = Num 0 \<and>
      cosine n_x yr = Inr sim \<and> sim (i, j) = NaN)"
proof (rule conjI)
  show "well_formed n_x (int_ratings yr) \<and> cosine_range n_x R (int_ratings yr) \<and>
    ratings_nonzero (int_ratings yr) \<and> 0 < co_freq (int_ratings yr) i j \<longrightarrow>
      (\<exists>acc. cosine_acc n_x yr = Inr acc \<and> 0 < freq acc (i, j) \<and>
             np_sqrt (c_long (sqi acc (i, j) * sqj acc (i, j))) \<noteq> Num 0)"
    by (rule cosine_divisor_int[where yr = "int_ratings yr", unfolded float_ratings_truncated,
          THEN conjunct1])
  from cosine_divisor_int[THEN conjunct2] obtain n S and y' :: "nat int_yr" and i j acc sim
    where "well_formed n y' \<and> cosine_range n S y' \<and> i \<noteq> j \<and>
      cosine_acc n (py_yr y') = Inr acc \<and> 0 < freq acc (i, j) \<and>
      np_sqrt (c_long (sqi acc (i, j) * sqj acc (i, j))) = Num 0 \<and>
      cosine n (py_yr y') = Inr sim \<and> sim (i, j) = NaN"
    by blast
  then have "well_formed n (int_ratings (py_yr y')) \<and>
      cosine_range n S (int_ratings (py_yr y')) \<and> i \<noteq> j \<and>
      cosine_acc n (py_yr y') = Inr acc \<and> 0 < freq acc (i, j) \<and>
      np_sqrt (c_long (sqi acc (i, j) * sqj acc (i, j))) = Num 0 \<and>
      cosine n (py_yr y') = Inr sim \<and> sim (i, j) = NaN"
    by (simp add: int_ratings_py)
  then show "\<exists>n_x R (yr :: nat yr) i j acc sim.
      well_formed n_x (int_ratings yr) \<and> cosine_range n_x R (int_ratings yr) \<and> i \<noteq> j \<and>
      cosine_acc n_x yr = Inr acc \<and> 0 < freq acc (i, j) \<and>
      np_sqrt (c_long (sqi acc (i, j) * sqj acc (i, j))) = Num 0 \<and>
      cosine n_x yr = Inr sim \<and> sim (i, j) = NaN"
    by blast
qed

lemma ratings_nonzero_example: "ratings_nonzero example_yr"
  by (simp add: ratings_nonzero_def example_yr_def)

theorem cosine_divisor_witness:
  "well_formed 3 example_yr \<and> cosine_range 3 5 example_yr \<and> ratings_nonzero example_yr \<and>
   0 < co_freq example_yr 0 2 \<and>
   (\<exists>acc. cosine_acc 3 (py_yr example_yr) = Inr acc \<and> 0 < freq acc (0, 2) \<and>
          np_sqrt (c_long (sqi acc (0, 2) * sqj acc (0, 2))) \<noteq> Num 0)"
proof -
  have h: "well_formed 3 example_yr \<and> cosine_range 3 5 example_yr \<and>
           ratings_nonzero example_yr \<and> 0 < co_freq example_yr 0 2"
    by (simp add: example_facts ratings_nonzero_example co_freq_def co_rated_example)
  from cosine_divisor[of 3 "py_yr example_yr" 5 0 2, unfolded int_ratings_py] h show ?thesis by blast
qed

lemma long_wrap_facts:
  "well_formed 2 long_wrap_yr" "ratings_fit long_wrap_yr" "ratings_nonzero long_wrap_yr"
  "co_rated long_wrap_yr 0 (Suc 0) = [(65536, 65536)]"
  by (simp_all add: well_formed_def ratings_fit_def ratings_nonzero_def fits_int_def
        long_wrap_yr_def co_rated_def)

text \<open>
  Claim C10 as stated fails: with the rating \<open>65536\<close> twice under one \<open>y\<close> the input is well
  formed, every rating is nonzero and \<open>freq[0,1] = 1\<close>, but \<open>sqi[0,1]\<close> and \<open>sqj[0,1]\<close> are
  \<open>2\<^sup>3\<^sup>2\<close> and their product on C \<^verbatim>\<open>long\<close> wraps around to 0: the divisor is 0.
\<close>

theorem cosine_divisor_counterexample:
  "well_formed 2 long_wrap_yr \<and> ratings_nonzero long_wrap_yr \<and>
   0 < co_freq long_wrap_yr 0 1 \<and>
   (\<exists>acc sim. cosine_acc 2 (py_yr long_wrap_yr) = Inr acc \<and> 0 < freq acc (0, 1) \<and>
      sqi acc (0, 1) = 2 ^ 32 \<and> sqj acc (0, 1) = 2 ^ 32 \<and>
      np_sqrt (c_long (sqi acc (0, 1) * sqj acc (0, 1))) = Num 0 \<and>
      cosine 2 (py_yr long_wrap_yr) = Inr sim \<and> sim (0, 1) = NaN)"
proof -
  have n: "(2::int) \<le> 2 ^ 31" by simp
  note w = cosine_acc_wrapped[OF long_wrap_facts(1) n long_wrap_facts(2)]
  let ?acc = "traverse cosine_step long_wrap_yr zeros"
  have a: "cosine_acc 2 (py_yr long_wrap_yr) = Inr ?acc" by (rule w)
  have f: "freq ?acc (0, Suc 0) = 1"
    using w(2)[of 0 "Suc 0"] by (simp add: co_freq_def long_wrap_facts c_long_def)
  have p: "prods ?acc (0, Suc 0) = 0"
    using w(3)[of 0 "Suc 0"] by (simp add: co_sum_def long_wrap_facts c_int_def c_long_def)
  have qi: "sqi ?acc (0, Suc 0) = 4294967296"
    using w(4)[of 0 "Suc 0"] by (simp add: co_sum_def long_wrap_facts c_long_def)
  have qj: "sqj ?acc (0, Suc 0) = 4294967296"
    using w(5)[of 0 "Suc 0"] by (simp add: co_sum_def long_wrap_facts c_long_def)
  have d: "np_sqrt (c_long (sqi ?acc (0, Suc 0) * sqj ?acc (0, Suc 0))) = Num 0"
    by (simp add: qi qj wrap_values np_sqrt_def)
  have m: "cosine 2 (py_yr long_wrap_yr) = Inr (cosine_fill 2 ?acc)"
    by (simp add: cosine_def a)
  have s: "cosine_fill 2 ?acc (0, Suc 0) = NaN"
    by (simp add: cosine_fill_cell f d p)
  have c: "0 < co_freq long_wrap_yr 0 (Suc 0)"
    by (simp add: co_freq_def long_wrap_facts)
  from a m f qi qj d s c long_wrap_facts(1,3) show ?thesis by simp
qed

section \<open>pearson\<close>

lemma for_each_range:
  assumes "\<And>k s. lo \<le> k \<Longrightarrow> k < hi \<Longrightarrow> body k s = Inr (g k s)"
  shows "for_each body [lo..<hi] s = Inr (for_range lo hi g s)"
  unfolding for_range_def by (rule for_each_pure) (simp add: assms)

lemma np_sqrt_py_ok: "- (2 ^ 63) \<le> k \<Longrightarrow> k < 2 ^ 64 \<Longrightarrow> np_sqrt_py k = Inr (np_sqrt k)"
  by (simp add: np_sqrt_py_def)

lemma pearson_fill_cell:
  assumes rad: "\<And>i j. i < j \<Longrightarrow> j < n \<Longrightarrow>
                  - (2 ^ 63) \<le> pearson_radicand a (i, j) \<and> pearson_radicand a (i, j) < 2 ^ 64"
  defines "cell \<equiv> (\<lambda>i j. if np_sqrt (pearson_radicand a (i, j)) = Num 0 then Num 0
                          else np_div (pearson_num a (i, j)) (np_sqrt (pearson_radicand a (i, j))))"
  shows "\<exists>sim. pearson_fill n a = Inr sim \<and>
     (\<forall>i j. sim (i, j) =
        (if i = j then (if i < n then Num 1 else Num 0)
         else if i < j then (if j < n then cell i j else Num 0)
         else (if i < n then cell j i else Num 0)))"
proof -
  define g where "g = (\<lambda>xi xj (sim :: dbl matrix).
     sim((xi, xj) := cell xi xj, (xj, xi) := cell xi xj))"
  define inner where "inner = (\<lambda>xi xj (sim :: dbl matrix).
         let n = freq a (xi, xj);
             num = n * prods a (xi, xj) - c_long (si a (xi, xj) * sj a (xi, xj));
             radicand = (n * sqi a (xi, xj) - c_long ((si a (xi, xj))\<^sup>2)) *
                        (n * sqj a (xi, xj) - c_long ((sj a (xi, xj))\<^sup>2))
         in case np_sqrt_py radicand of Inl e \<Rightarrow> Inl e
            | Inr denum \<Rightarrow>
              let sim = (if denum = Num 0 then sim((xi, xj) := Num 0)
                         else sim((xi, xj) := np_div num denum))
              in Inr (sim((xj, xi) := sim (xi, xj))))"
  have fill: "pearson_fill n a =
     for_each (\<lambda>xi sim. for_each (inner xi) [Suc xi..<n] (sim((xi, xi) := Num 1)))
       [0..<n] (\<lambda>_. Num 0)"
    by (simp add: pearson_fill_def inner_def)
  have step: "inner xi xj sim = Inr (g xi xj sim)" if "xi < xj" "xj < n" for xi xj sim
  proof -
    from rad[OF that] have "np_sqrt_py (pearson_radicand a (xi, xj)) =
        Inr (np_sqrt (pearson_radicand a (xi, xj)))"
      by (intro np_sqrt_py_ok) simp_all
    then show ?thesis
      by (simp add: inner_def g_def cell_def Let_def pearson_radicand_def pearson_num_def)
  qed
  have row: "for_each (inner xi) [Suc xi..<n] s = Inr (for_range (Suc xi) n (g xi) s)"
    for xi s
    by (rule for_each_range) (simp add: step)
  have "pearson_fill n a =
     Inr (for_range 0 n (\<lambda>xi sim. for_range (Suc xi) n (g xi) (sim((xi, xi) := Num 1)))
            (\<lambda>_. Num 0))"
    unfolding fill by (rule for_each_range) (simp add: row)
  moreover have "for_range 0 n (\<lambda>xi sim. for_range (Suc xi) n (g xi) (sim((xi, xi) := Num 1)))
            (\<lambda>_. Num 0) (i, j) =
        (if i = j then (if i < n then Num 1 else Num 0)
         else if i < j then (if i < n \<and> j < n \<and> True then cell i j else Num 0)
         else (if j < n \<and> i < n \<and> True then cell j i else Num 0))" for i j
    by (rule outer_fill[where p = "\<lambda>_ _. True" and u = cell and l = cell]) (simp add: g_def)
  ultimately show ?thesis by auto
qed

lemma sum_sq_dev:
  fixes xs :: "int list"
  shows "(\<Sum>k\<leftarrow>xs. (k - x)\<^sup>2) = (\<Sum>k\<leftarrow>xs. k\<^sup>2) - 2 * x * sum_list xs + int (length xs) * x\<^sup>2"
  by (induction xs) (simp_all add: power2_eq_square algebra_simps)

lemma variance_step:
  fixes xs :: "int list"
  shows "int (length (x # xs)) * (\<Sum>k\<leftarrow>x # xs. k\<^sup>2) - (sum_list (x # xs))\<^sup>2 =
         (int (length xs) * (\<Sum>k\<leftarrow>xs. k\<^sup>2) - (sum_list xs)\<^sup>2) + (\<Sum>k\<leftarrow>xs. (k - x)\<^sup>2)"
  unfolding sum_sq_dev by (simp add: power2_eq_square algebra_simps)

lemma sum_sq_dev_nonneg: "0 \<le> (\<Sum>k\<leftarrow>xs. (k - x)\<^sup>2)" for x :: int
  by (rule sum_list_nonneg) auto

lemma variance_nonneg:
  fixes xs :: "int list"
  shows "0 \<le> int (length xs) * (\<Sum>k\<leftarrow>xs. k\<^sup>2) - (sum_list xs)\<^sup>2"
proof (induction xs)
  case Nil
  then show ?case by simp
next
  case (Cons x xs)
  show ?case
    unfolding variance_step using Cons.IH sum_sq_dev_nonneg[of x xs] by linarith
qed

lemma sum_sq_dev_pos:
  fixes x :: int
  assumes "k \<in> set xs" "k \<noteq> x"
  shows "0 < (\<Sum>k\<leftarrow>xs. (k - x)\<^sup>2)"
  using assms
proof (induction xs)
  case Nil
  then show ?case by simp
next
  case (Cons y ys)
  show ?case
  proof (cases "k = y")
    case True
    with Cons.prems have "0 < (y - x)\<^sup>2" by simp
    moreover have "(\<Sum>k\<leftarrow>y # ys. (k - x)\<^sup>2) = (y - x)\<^sup>2 + (\<Sum>k\<leftarrow>ys. (k - x)\<^sup>2)"
      by simp
    ultimately show ?thesis using sum_sq_dev_nonneg[of x ys] by linarith
  next
    case False
    with Cons have "0 < (\<Sum>k\<leftarrow>ys. (k - x)\<^sup>2)" by simp
    moreover have "0 \<le> (y - x)\<^sup>2" by simp
    moreover have "(\<Sum>k\<leftarrow>y # ys. (k - x)\<^sup>2) = (y - x)\<^sup>2 + (\<Sum>k\<leftarrow>ys. (k - x)\<^sup>2)"
      by simp
    ultimately show ?thesis by linarith
  qed
qed

lemma variance_pos:
  fixes xs :: "int list"
  assumes "a \<in> set xs" "b \<in> set xs" "a \<noteq> b"
  shows "0 < int (length xs) * (\<Sum>k\<leftarrow>xs. k\<^sup>2) - (sum_list xs)\<^sup>2"
  using assms
proof (induction xs)
  case Nil
  then show ?case by simp
next
  case (Cons x xs)
  have nn: "0 \<le> int (length xs) * (\<Sum>k\<leftarrow>xs. k\<^sup>2) - (sum_list xs)\<^sup>2"
    by (rule variance_nonneg)
  show ?case
  proof (cases "\<exists>k \<in> set xs. k \<noteq> x")
    case True
    then obtain k where "k \<in> set xs" "k \<noteq> x" by blast
    from sum_sq_dev_pos[OF this] nn show ?thesis
      unfolding variance_step by linarith
  next
    case False
    with Cons.prems have False by (metis set_ConsD)
    then show ?thesis ..
  qed
qed

lemma co_variance_nonneg:
  "0 \<le> co_freq yr i j * co_sum (\<lambda>ri rj. ri\<^sup>2) yr i j - (co_sum (\<lambda>ri rj. ri) yr i j)\<^sup>2"
  "0 \<le> co_freq yr i j * co_sum (\<lambda>ri rj. rj\<^sup>2) yr i j - (co_sum (\<lambda>ri rj. rj) yr i j)\<^sup>2"
  using variance_nonneg[of "map fst (co_rated yr i j)"] variance_nonneg[of "map snd (co_rated yr i j)"]
  by (simp_all add: co_sum_fst co_sum_snd co_freq_def)

lemma pearson_acc_wrapped:
  assumes wf: "well_formed n_x yr" and n: "n_x \<le> 2 ^ 31" and fit: "ratings_fit yr"
  shows "pearson_acc n_x (py_yr yr) = Inr (traverse pearson_step yr zeros)"
    and "freq (traverse pearson_step yr zeros) (i, j) = c_long (co_freq yr i j)"
    and "prods (traverse pearson_step yr zeros) (i, j) =
           c_long (co_sum (\<lambda>ri rj. c_int (ri * rj)) yr i j)"
    and "sqi (traverse pearson_step yr zeros) (i, j) =
           c_long (co_sum (\<lambda>ri rj. c_long (ri\<^sup>2)) yr i j)"
    and "sqj (traverse pearson_step yr zeros) (i, j) =
           c_long (co_sum (\<lambda>ri rj. c_long (rj\<^sup>2)) yr i j)"
    and "si (traverse pearson_step yr zeros) (i, j) = c_long (co_sum (\<lambda>ri rj. ri) yr i j)"
    and "sj (traverse pearson_step yr zeros) (i, j) = c_long (co_sum (\<lambda>ri rj. rj) yr i j)"
proof -
  from wf have "0 \<le> n_x" by (simp add: well_formed_def)
  then show "pearson_acc n_x (py_yr yr) = Inr (traverse pearson_step yr zeros)"
    by (simp add: pearson_acc_def accumulate_py[OF wf n fit])
  show "freq (traverse pearson_step yr zeros) (i, j) = c_long (co_freq yr i j)"
    by (subst traverse_co_sum_long[OF wf, where f = "\<lambda>ij r1 r2. 1"])
       (simp_all add: pearson_step_def zeros_def co_sum_count)
  show "prods (traverse pearson_step yr zeros) (i, j) =
           c_long (co_sum (\<lambda>ri rj. c_int (ri * rj)) yr i j)"
    by (subst traverse_co_sum_long[OF wf, where f = "\<lambda>ij r1 r2. c_int (r1 * r2)"])
       (simp_all add: pearson_step_def zeros_def)
  show "sqi (traverse pearson_step yr zeros) (i, j) =
           c_long (co_sum (\<lambda>ri rj. c_long (ri\<^sup>2)) yr i j)"
    by (subst traverse_co_sum_long[OF wf, where f = "\<lambda>ij r1 r2. c_long (r1\<^sup>2)"])
       (simp_all add: pearson_step_def zeros_def)
  show "sqj (traverse pearson_step yr zeros) (i, j) =
           c_long (co_sum (\<lambda>ri rj. c_long (rj\<^sup>2)) yr i j)"
    by (subst traverse_co_sum_long[OF wf, where f = "\<lambda>ij r1 r2. c_long (r2\<^sup>2)"])
       (simp_all add: pearson_step_def zeros_def)
  show "si (traverse pearson_step yr zeros) (i, j) = c_long (co_sum (\<lambda>ri rj. ri) yr i j)"
    by (subst traverse_co_sum_long[OF wf, where f = "\<lambda>ij r1 r2. r1"])
       (simp_all add: pearson_step_def zeros_def)
  show "sj (traverse pearson_step yr zeros) (i, j) = c_long (co_sum (\<lambda>ri rj. rj) yr i j)"
    by (subst traverse_co_sum_long[OF wf, where f = "\<lambda>ij r1 r2. r2"])
       (simp_all add: pearson_step_def zeros_def)
qed

text \<open>What the range of \<^verbatim>\<open>pearson\<close> bounds. It lies inside the two other ranges.\<close>

lemma ratings_le_mono: "ratings_le R yr \<Longrightarrow> R \<le> R' \<Longrightarrow> ratings_le R' yr"
  by (fastforce simp: ratings_le_def)

lemma pearson_range_bound:
  assumes rg: "pearson_range n_x R yr" and ne: "yr \<noteq> []"
  shows "R < 2 ^ 15"
proof -
  from ne have N: "1 \<le> int (length yr)" by (cases yr) simp_all
  from rg have R: "1 \<le> R" and b: "int (length yr) * R < 2 ^ 15"
    by (simp_all add: pearson_range_def)
  show ?thesis by (rule scaled_bound[OF N _ b]) (use R in simp)
qed

lemma small_square:
  fixes X :: int
  assumes "0 \<le> X" and "X < 2 ^ 15"
  shows "X * X < 2 ^ 30"
proof -
  have "X * X \<le> 32767 * 32767" using assms by (intro mult_mono) simp_all
  then show ?thesis by simp
qed

lemma pearson_range_square:
  assumes rg: "pearson_range n_x R yr"
  shows "int (length yr) * (int (length yr) * R\<^sup>2) < 2 ^ 30"
proof -
  from rg have R: "1 \<le> R" and b: "int (length yr) * R < 2 ^ 15"
    by (simp_all add: pearson_range_def)
  have "0 \<le> int (length yr) * R" using R by simp
  from small_square[OF this b] show ?thesis
    by (simp add: power2_eq_square algebra_simps)
qed

lemma pearson_range_cosine:
  assumes rg: "pearson_range n_x R yr"
  shows "cosine_range n_x R yr"
proof (cases "yr = []")
  case True
  with rg show ?thesis by (simp add: pearson_range_def cosine_range_def)
next
  case False
  then have N: "1 \<le> int (length yr)" by (cases yr) simp_all
  from rg have R: "1 \<le> R" by (simp add: pearson_range_def)
  have "int (length yr) * R\<^sup>2 < 2 ^ 30"
    by (rule scaled_bound[OF N _ pearson_range_square[OF rg]]) (use R in simp)
  with rg show ?thesis by (simp add: pearson_range_def cosine_range_def)
qed

lemma pearson_range_diff:
  assumes rg: "pearson_range n_x R yr"
  shows "diff_range n_x yr"
proof (cases "yr = []")
  case True
  with rg show ?thesis by (simp add: pearson_range_def diff_range_def ratings_le_def)
next
  case False
  from rg have R: "1 \<le> R" and b: "int (length yr) * R < 2 ^ 15"
    and le: "ratings_le R yr"
    by (simp_all add: pearson_range_def)
  have "int (length yr) * 1 \<le> int (length yr) * R" using R by (intro mult_left_mono) simp_all
  with b have N: "int (length yr) < 2 ^ 63" by simp
  from pearson_range_bound[OF rg False] have "R \<le> 2 ^ 30 - 1" by simp
  from ratings_le_mono[OF le this] N rg show ?thesis
    by (simp add: pearson_range_def diff_range_def)
qed

lemma pearson_range_sums:
  assumes rg: "pearson_range n_x R yr"
  shows "\<bar>co_sum (\<lambda>ri rj. ri) yr i j\<bar> < 2 ^ 15"
    and "\<bar>co_sum (\<lambda>ri rj. rj) yr i j\<bar> < 2 ^ 15"
    and "co_freq yr i j * co_sum (\<lambda>ri rj. ri\<^sup>2) yr i j < 2 ^ 30"
    and "co_freq yr i j * co_sum (\<lambda>ri rj. rj\<^sup>2) yr i j < 2 ^ 30"
proof -
  from rg have le: "ratings_le R yr" and b: "int (length yr) * R < 2 ^ 15" and R: "1 \<le> R"
    by (simp_all add: pearson_range_def)
  have "\<bar>co_sum (\<lambda>ri rj. ri) yr i j\<bar> \<le> int (length yr) * R"
    by (rule co_sum_abs_bound[OF le]) (use R in simp_all)
  with b show "\<bar>co_sum (\<lambda>ri rj. ri) yr i j\<bar> < 2 ^ 15" by simp
  have "\<bar>co_sum (\<lambda>ri rj. rj) yr i j\<bar> \<le> int (length yr) * R"
    by (rule co_sum_abs_bound[OF le]) (use R in simp_all)
  with b show "\<bar>co_sum (\<lambda>ri rj. rj) yr i j\<bar> < 2 ^ 15" by simp
  have qi: "\<bar>co_sum (\<lambda>ri rj. ri\<^sup>2) yr i j\<bar> \<le> int (length yr) * R\<^sup>2"
    by (rule co_sum_abs_bound[OF le]) (simp_all add: square_bound)
  have "co_freq yr i j * co_sum (\<lambda>ri rj. ri\<^sup>2) yr i j \<le>
        int (length yr) * (int (length yr) * R\<^sup>2)"
    using co_freq_le[of yr i j] co_freq_nonneg[of yr i j] qi co_sum_square_nonneg(1)[of yr i j]
    by (intro mult_mono) simp_all
  with pearson_range_square[OF rg]
  show "co_freq yr i j * co_sum (\<lambda>ri rj. ri\<^sup>2) yr i j < 2 ^ 30" by simp
  have qj: "\<bar>co_sum (\<lambda>ri rj. rj\<^sup>2) yr i j\<bar> \<le> int (length yr) * R\<^sup>2"
    by (rule co_sum_abs_bound[OF le]) (simp_all add: square_bound)
  have "co_freq yr i j * co_sum (\<lambda>ri rj. rj\<^sup>2) yr i j \<le>
        int (length yr) * (int (length yr) * R\<^sup>2)"
    using co_freq_le[of yr i j] co_freq_nonneg[of yr i j] qj co_sum_square_nonneg(2)[of yr i j]
    by (intro mult_mono) simp_all
  with pearson_range_square[OF rg]
  show "co_freq yr i j * co_sum (\<lambda>ri rj. rj\<^sup>2) yr i j < 2 ^ 30" by simp
qed

lemma small_product:
  fixes a b :: int
  assumes "\<bar>a\<bar> < 2 ^ 15" and "\<bar>b\<bar> < 2 ^ 15"
  shows "c_long (a * b) = a * b"
proof -
  have "\<bar>a\<bar> * \<bar>b\<bar> \<le> 2 ^ 15 * 2 ^ 15" using assms by (intro mult_mono) simp_all
  then have "\<bar>a * b\<bar> < 2 ^ 63" by (simp add: abs_mult)
  then show ?thesis by (rule c_long_abs_id)
qed

lemma pearson_acc_ok:
  assumes wf: "well_formed n_x yr" and rg: "pearson_range n_x R yr"
  shows "pearson_acc n_x (py_yr yr) = Inr (traverse pearson_step yr zeros)"
    and "freq (traverse pearson_step yr zeros) (i, j) = co_freq yr i j"
    and "prods (traverse pearson_step yr zeros) (i, j) = co_sum (\<lambda>ri rj. ri * rj) yr i j"
    and "sqi (traverse pearson_step yr zeros) (i, j) = co_sum (\<lambda>ri rj. ri\<^sup>2) yr i j"
    and "sqj (traverse pearson_step yr zeros) (i, j) = co_sum (\<lambda>ri rj. rj\<^sup>2) yr i j"
    and "si (traverse pearson_step yr zeros) (i, j) = co_sum (\<lambda>ri rj. ri) yr i j"
    and "sj (traverse pearson_step yr zeros) (i, j) = co_sum (\<lambda>ri rj. rj) yr i j"
proof -
  note cr = pearson_range_cosine[OF rg]
  from rg have n: "n_x \<le> 2 ^ 31" by (simp add: pearson_range_def)
  note w = pearson_acc_wrapped[OF wf n cosine_range_fit[OF cr]]
  note s = cosine_range_sums[OF cr, of i j] and t = pearson_range_sums[OF rg, of i j]
  show "pearson_acc n_x (py_yr yr) = Inr (traverse pearson_step yr zeros)" by (rule w)
  from s(4) co_freq_nonneg[of yr i j]
  have "c_long (co_freq yr i j) = co_freq yr i j" by (intro c_long_id) simp_all
  then show "freq (traverse pearson_step yr zeros) (i, j) = co_freq yr i j"
    by (simp only: w(2))
  have "co_sum (\<lambda>ri rj. c_int (ri * rj)) yr i j = co_sum (\<lambda>ri rj. ri * rj) yr i j"
    by (rule co_sum_cong) (rule cosine_range_terms[OF cr])
  moreover from s(1) have "c_long (co_sum (\<lambda>ri rj. ri * rj) yr i j) =
      co_sum (\<lambda>ri rj. ri * rj) yr i j"
    by (intro c_long_abs_id) simp
  ultimately show "prods (traverse pearson_step yr zeros) (i, j) =
      co_sum (\<lambda>ri rj. ri * rj) yr i j"
    by (simp only: w(3))
  have "co_sum (\<lambda>ri rj. c_long (ri\<^sup>2)) yr i j = co_sum (\<lambda>ri rj. ri\<^sup>2) yr i j"
    by (rule co_sum_cong) (rule cosine_range_terms[OF cr])
  moreover from s(2) co_sum_square_nonneg(1)[of yr i j]
  have "c_long (co_sum (\<lambda>ri rj. ri\<^sup>2) yr i j) = co_sum (\<lambda>ri rj. ri\<^sup>2) yr i j"
    by (intro c_long_id) simp_all
  ultimately show "sqi (traverse pearson_step yr zeros) (i, j) = co_sum (\<lambda>ri rj. ri\<^sup>2) yr i j"
    by (simp only: w(4))
  have "co_sum (\<lambda>ri rj. c_long (rj\<^sup>2)) yr i j = co_sum (\<lambda>ri rj. rj\<^sup>2) yr i j"
    by (rule co_sum_cong) (rule cosine_range_terms[OF cr])
  moreover from s(3) co_sum_square_nonneg(2)[of yr i j]
  have "c_long (co_sum (\<lambda>ri rj. rj\<^sup>2) yr i j) = co_sum (\<lambda>ri rj. rj\<^sup>2) yr i j"
    by (intro c_long_id) simp_all
  ultimately show "sqj (traverse pearson_step yr zeros) (i, j) = co_sum (\<lambda>ri rj. rj\<^sup>2) yr i j"
    by (simp only: w(5))
  from t(1) have "c_long (co_sum (\<lambda>ri rj. ri) yr i j) = co_sum (\<lambda>ri rj. ri) yr i j"
    by (intro c_long_abs_id) simp
  then show "si (traverse pearson_step yr zeros) (i, j) = co_sum (\<lambda>ri rj. ri) yr i j"
    by (simp only: w(6))
  from t(2) have "c_long (co_sum (\<lambda>ri rj. rj) yr i j) = co_sum (\<lambda>ri rj. rj) yr i j"
    by (intro c_long_abs_id) simp
  then show "sj (traverse pearson_step yr zeros) (i, j) = co_sum (\<lambda>ri rj. rj) yr i j"
    by (simp only: w(7))
qed

text \<open>In the range the fill loop computes with the plain products, and the root exists.\<close>

lemma pearson_terms_ok:
  assumes wf: "well_formed n_x yr" and rg: "pearson_range n_x R yr"
  defines "acc \<equiv> traverse pearson_step yr zeros"
  shows "pearson_num acc (i, j) =
           freq acc (i, j) * prods acc (i, j) - si acc (i, j) * sj acc (i, j)"
    and "pearson_radicand acc (i, j) =
           (freq acc (i, j) * sqi acc (i, j) - (si acc (i, j))\<^sup>2) *
           (freq acc (i, j) * sqj acc (i, j) - (sj acc (i, j))\<^sup>2)"
    and "0 \<le> pearson_radicand acc (i, j)"
    and "pearson_radicand acc (i, j) < 2 ^ 64"
proof -
  note ok = pearson_acc_ok(2-7)[OF wf rg, of i j, folded acc_def]
  note t = pearson_range_sums[OF rg, of i j]
  have p: "c_long (si acc (i, j) * sj acc (i, j)) = si acc (i, j) * sj acc (i, j)"
    unfolding ok by (rule small_product[OF t(1,2)])
  have pi: "c_long ((si acc (i, j))\<^sup>2) = (si acc (i, j))\<^sup>2"
    unfolding ok power2_eq_square by (rule small_product[OF t(1,1)])
  have pj: "c_long ((sj acc (i, j))\<^sup>2) = (sj acc (i, j))\<^sup>2"
    unfolding ok power2_eq_square by (rule small_product[OF t(2,2)])
  show "pearson_num acc (i, j) =
           freq acc (i, j) * prods acc (i, j) - si acc (i, j) * sj acc (i, j)"
    by (simp only: pearson_num_def p)
  show r: "pearson_radicand acc (i, j) =
           (freq acc (i, j) * sqi acc (i, j) - (si acc (i, j))\<^sup>2) *
           (freq acc (i, j) * sqj acc (i, j) - (sj acc (i, j))\<^sup>2)"
    by (simp only: pearson_radicand_def pi pj)
  let ?a = "co_freq yr i j * co_sum (\<lambda>ri rj. ri\<^sup>2) yr i j - (co_sum (\<lambda>ri rj. ri) yr i j)\<^sup>2"
  let ?b = "co_freq yr i j * co_sum (\<lambda>ri rj. rj\<^sup>2) yr i j - (co_sum (\<lambda>ri rj. rj) yr i j)\<^sup>2"
  note nn = co_variance_nonneg[of yr i j]
  have a: "?a \<le> 2 ^ 30"
    using t(3) zero_le_power2[of "co_sum (\<lambda>ri rj. ri) yr i j"] by linarith
  have b: "?b \<le> 2 ^ 30"
    using t(4) zero_le_power2[of "co_sum (\<lambda>ri rj. rj) yr i j"] by linarith
  have "?a * ?b \<le> 2 ^ 30 * 2 ^ 30" using a b nn by (intro mult_mono) simp_all
  then have "?a * ?b < 2 ^ 64" by simp
  then show "pearson_radicand acc (i, j) < 2 ^ 64" by (simp only: r ok)
  have "0 \<le> ?a * ?b" using nn by (intro mult_nonneg_nonneg)
  then show "0 \<le> pearson_radicand acc (i, j)" by (simp only: r ok)
qed

lemma pearson_ok:
  assumes wf: "well_formed n_x yr" and rg: "pearson_range n_x R yr"
  defines "acc \<equiv> traverse pearson_step yr zeros"
  defines "cell \<equiv> (\<lambda>i j. if np_sqrt (pearson_radicand acc (i, j)) = Num 0 then Num 0
                          else np_div (pearson_num acc (i, j))
                                 (np_sqrt (pearson_radicand acc (i, j))))"
  shows "\<exists>sim. pearson n_x (py_yr yr) = Inr sim \<and>
     (\<forall>i j. sim (i, j) =
        (if i = j then (if i < nat n_x then Num 1 else Num 0)
         else if i < j then (if j < nat n_x then cell i j else Num 0)
         else (if i < nat n_x then cell j i else Num 0)))"
proof -
  have r: "- (2 ^ 63) \<le> pearson_radicand acc (i, j) \<and> pearson_radicand acc (i, j) < 2 ^ 64"
    for i j
    using pearson_terms_ok(3,4)[OF wf rg, of i j, folded acc_def] by simp
  have eq: "pearson n_x (py_yr yr) = pearson_fill (nat n_x) acc"
    by (simp add: pearson_def pearson_acc_ok(1)[OF wf rg, folded acc_def])
  show ?thesis unfolding eq cell_def by (rule pearson_fill_cell) (rule r)
qed

lemma np_sqrt_nonneg: "0 \<le> k \<Longrightarrow> np_sqrt k = Num (sqrt (of_int k))"
  by (simp add: np_sqrt_def)


lemma pearson_spec_int:
  assumes wf: "well_formed n_x yr" and rg: "pearson_range n_x R yr"
  shows "\<exists>acc sim.
     pearson_acc n_x (py_yr yr) = Inr acc \<and> pearson n_x (py_yr yr) = Inr sim \<and>
     (\<forall>i j. freq acc (i, j) = co_freq yr i j \<and>
            prods acc (i, j) = co_sum (\<lambda>ri rj. ri * rj) yr i j \<and>
            sqi acc (i, j) = co_sum (\<lambda>ri rj. ri\<^sup>2) yr i j \<and>
            sqj acc (i, j) = co_sum (\<lambda>ri rj. rj\<^sup>2) yr i j \<and>
            si acc (i, j) = co_sum (\<lambda>ri rj. ri) yr i j \<and>
            sj acc (i, j) = co_sum (\<lambda>ri rj. rj) yr i j) \<and>
     (\<forall>i j. i < j \<and> j < nat n_x \<longrightarrow>
        (let n = freq acc (i, j);
             num = n * prods acc (i, j) - si acc (i, j) * sj acc (i, j);
             radicand = (n * sqi acc (i, j) - (si acc (i, j))\<^sup>2) *
                        (n * sqj acc (i, j) - (sj acc (i, j))\<^sup>2);
             denum = sqrt (of_int radicand)
         in 0 \<le> radicand \<and>
            sim (i, j) = (if denum = 0 then Num 0 else Num (of_int num / denum)))) \<and>
     (\<forall>i. i < nat n_x \<longrightarrow> sim (i, i) = Num 1)"
proof -
  let ?acc = "traverse pearson_step yr zeros"
  note ok = pearson_acc_ok[OF wf rg] and t = pearson_terms_ok[OF wf rg]
  from pearson_ok[OF wf rg] obtain sim where
    sim: "pearson n_x (py_yr yr) = Inr sim"
    and cells: "\<And>i j. sim (i, j) =
        (if i = j then (if i < nat n_x then Num 1 else Num 0)
         else if i < j then
           (if j < nat n_x then
              (if np_sqrt (pearson_radicand ?acc (i, j)) = Num 0 then Num 0
               else np_div (pearson_num ?acc (i, j)) (np_sqrt (pearson_radicand ?acc (i, j))))
            else Num 0)
         else (if i < nat n_x then
              (if np_sqrt (pearson_radicand ?acc (j, i)) = Num 0 then Num 0
               else np_div (pearson_num ?acc (j, i)) (np_sqrt (pearson_radicand ?acc (j, i))))
            else Num 0))"
    by blast
  have fields: "\<forall>i j. freq ?acc (i, j) = co_freq yr i j \<and>
            prods ?acc (i, j) = co_sum (\<lambda>ri rj. ri * rj) yr i j \<and>
            sqi ?acc (i, j) = co_sum (\<lambda>ri rj. ri\<^sup>2) yr i j \<and>
            sqj ?acc (i, j) = co_sum (\<lambda>ri rj. rj\<^sup>2) yr i j \<and>
            si ?acc (i, j) = co_sum (\<lambda>ri rj. ri) yr i j \<and>
            sj ?acc (i, j) = co_sum (\<lambda>ri rj. rj) yr i j"
    by (intro allI conjI) (rule ok)+
  have cell: "\<forall>i j. i < j \<and> j < nat n_x \<longrightarrow>
        (let n = freq ?acc (i, j);
             num = n * prods ?acc (i, j) - si ?acc (i, j) * sj ?acc (i, j);
             radicand = (n * sqi ?acc (i, j) - (si ?acc (i, j))\<^sup>2) *
                        (n * sqj ?acc (i, j) - (sj ?acc (i, j))\<^sup>2);
             denum = sqrt (of_int radicand)
         in 0 \<le> radicand \<and>
            sim (i, j) = (if denum = 0 then Num 0 else Num (of_int num / denum)))"
  proof (intro allI impI)
    fix i j assume ij: "i < j \<and> j < nat n_x"
    let ?r = "(freq ?acc (i, j) * sqi ?acc (i, j) - (si ?acc (i, j))\<^sup>2) *
              (freq ?acc (i, j) * sqj ?acc (i, j) - (sj ?acc (i, j))\<^sup>2)"
    let ?n = "freq ?acc (i, j) * prods ?acc (i, j) - si ?acc (i, j) * sj ?acc (i, j)"
    have r: "pearson_radicand ?acc (i, j) = ?r" by (rule t(2))
    have n: "pearson_num ?acc (i, j) = ?n" by (rule t(1))
    have nn: "0 \<le> ?r" using t(3)[of i j] by (simp only: r)
    have root: "np_sqrt ?r = Num (sqrt (of_int ?r))" by (rule np_sqrt_nonneg[OF nn])
    have "sim (i, j) =
       (if np_sqrt ?r = Num 0 then Num 0 else np_div ?n (np_sqrt ?r))"
      using ij by (simp add: cells r n)
    then have "sim (i, j) =
       (if sqrt (of_int ?r) = 0 then Num 0 else Num (of_int ?n / sqrt (of_int ?r)))"
      unfolding root
      by (simp del: of_int_mult of_int_diff real_sqrt_eq_zero_cancel_iff)
    with nn show "let n = freq ?acc (i, j);
             num = n * prods ?acc (i, j) - si ?acc (i, j) * sj ?acc (i, j);
             radicand = (n * sqi ?acc (i, j) - (si ?acc (i, j))\<^sup>2) *
                        (n * sqj ?acc (i, j) - (sj ?acc (i, j))\<^sup>2);
             denum = sqrt (of_int radicand)
         in 0 \<le> radicand \<and>
            sim (i, j) = (if denum = 0 then Num 0 else Num (of_int num / denum))"
      unfolding Let_def by (intro conjI)
  qed
  have diag: "\<forall>i. i < nat n_x \<longrightarrow> sim (i, i) = Num 1"
    by (simp add: cells)
  from ok(1) sim fields cell diag show ?thesis by blast
qed

text \<open>
  Claim C4, as amended. A rating counts as the integer that its assignment to a C \<^verbatim>\<open>int\<close>
  gives (a float is truncated). For a well-formed input whose ratings are in the range of
  \<open>pearson_range\<close>, \<^verbatim>\<open>pearson\<close> returns a matrix. Its six accumulators hold the count and
  the sums of \<open>r\<^sub>i * r\<^sub>j\<close>, \<open>r\<^sub>i\<^sup>2\<close>, \<open>r\<^sub>j\<^sup>2\<close>, \<open>r\<^sub>i\<close>, \<open>r\<^sub>j\<close> over the co-rated \<open>y\<close>s only. For \<open>i < j\<close>
  and \<open>n = freq[i,j]\<close>, with
  \<open>denum = sqrt((n * sqi[i,j] - si[i,j]\<^sup>2) * (n * sqj[i,j] - sj[i,j]\<^sup>2))\<close>, the entry is 0 when
  \<open>denum = 0\<close> and \<open>(n * prods[i,j] - si[i,j] * sj[i,j]) / denum\<close> otherwise. The number under
  the root is never negative, so the root is a number. Every diagonal entry is 1.
\<close>

theorem pearson_spec:
  assumes wf: "well_formed n_x (int_ratings yr)" and rg: "pearson_range n_x R (int_ratings yr)"
  shows "\<exists>acc sim.
     pearson_acc n_x yr = Inr acc \<and> pearson n_x yr = Inr sim \<and>
     (\<forall>i j. freq acc (i, j) = co_freq (int_ratings yr) i j \<and>
            prods acc (i, j) = co_sum (\<lambda>ri rj. ri * rj) (int_ratings yr) i j \<and>
            sqi acc (i, j) = co_sum (\<lambda>ri rj. ri\<^sup>2) (int_ratings yr) i j \<and>
            sqj acc (i, j) = co_sum (\<lambda>ri rj. rj\<^sup>2) (int_ratings yr) i j \<and>
            si acc (i, j) = co_sum (\<lambda>ri rj. ri) (int_ratings yr) i j \<and>
            sj acc (i, j) = co_sum (\<lambda>ri rj. rj) (int_ratings yr) i j) \<and>
     (\<forall>i j. i < j \<and> j < nat n_x \<longrightarrow>
        (let n = freq acc (i, j);
             num = n * prods acc (i, j) - si acc (i, j) * sj acc (i, j);
             radicand = (n * sqi acc (i, j) - (si acc (i, j))\<^sup>2) *
                        (n * sqj acc (i, j) - (sj acc (i, j))\<^sup>2);
             denum = sqrt (of_int radicand)
         in 0 \<le> radicand \<and>
            sim (i, j) = (if denum = 0 then Num 0 else Num (of_int num / denum)))) \<and>
     (\<forall>i. i < nat n_x \<longrightarrow> sim (i, i) = Num 1)"
  using assms
  by (rule pearson_spec_int[where yr = "int_ratings yr", unfolded float_ratings_truncated])

theorem pearson_spec_witness:
  "well_formed 3 example_yr \<and> pearson_range 3 5 example_yr \<and>
   (\<exists>sim. pearson 3 (py_yr example_yr) = Inr sim \<and> sim (0, 1) = Num 1 \<and> sim (0, 2) = Num 0 \<and>
          sim (1, 1) = Num 1)"
  using pearson_spec[where yr = "py_yr example_yr", unfolded int_ratings_py, OF example_facts(1,4)]
  by (auto simp: co_sum_def co_freq_def co_rated_example example_facts Let_def)

lemma prod_wrap2_facts:
  "well_formed 2 prod_wrap2_yr" "ratings_fit prod_wrap2_yr"
  "co_rated prod_wrap2_yr 0 (Suc 0) = [(46341, 46341), (0, 0)]"
  by (simp_all add: well_formed_def ratings_fit_def fits_int_def prod_wrap2_yr_def co_rated_def)

lemma pearson_wrap2:
  "pearson_acc 2 (py_yr prod_wrap2_yr) = Inr (traverse pearson_step prod_wrap2_yr zeros)"
  "freq (traverse pearson_step prod_wrap2_yr zeros) (0, Suc 0) = 2"
  "prods (traverse pearson_step prod_wrap2_yr zeros) (0, Suc 0) = - 2147479015"
  "sqi (traverse pearson_step prod_wrap2_yr zeros) (0, Suc 0) = 2147488281"
  "sqj (traverse pearson_step prod_wrap2_yr zeros) (0, Suc 0) = 2147488281"
  "si (traverse pearson_step prod_wrap2_yr zeros) (0, Suc 0) = 46341"
  "sj (traverse pearson_step prod_wrap2_yr zeros) (0, Suc 0) = 46341"
proof -
  have n: "(2::int) \<le> 2 ^ 31" by simp
  note w = pearson_acc_wrapped[OF prod_wrap2_facts(1) n prod_wrap2_facts(2)]
  let ?acc = "traverse pearson_step prod_wrap2_yr zeros"
  show "pearson_acc 2 (py_yr prod_wrap2_yr) = Inr ?acc" by (rule w)
  show "freq ?acc (0, Suc 0) = 2"
    using w(2)[of 0 "Suc 0"] by (simp add: co_freq_def prod_wrap2_facts c_long_def)
  show "prods ?acc (0, Suc 0) = - 2147479015"
    using w(3)[of 0 "Suc 0"]
    by (simp add: co_sum_def prod_wrap2_facts wrap_values c_long_def c_int_def)
  show "sqi ?acc (0, Suc 0) = 2147488281"
    using w(4)[of 0 "Suc 0"] by (simp add: co_sum_def prod_wrap2_facts c_long_def)
  show "sqj ?acc (0, Suc 0) = 2147488281"
    using w(5)[of 0 "Suc 0"] by (simp add: co_sum_def prod_wrap2_facts c_long_def)
  show "si ?acc (0, Suc 0) = 46341"
    using w(6)[of 0 "Suc 0"] by (simp add: co_sum_def prod_wrap2_facts c_long_def)
  show "sj ?acc (0, Suc 0) = 46341"
    using w(7)[of 0 "Suc 0"] by (simp add: co_sum_def prod_wrap2_facts c_long_def)
qed

lemma pearson_wrap2_cell:
  "\<exists>sim. pearson 2 (py_yr prod_wrap2_yr) = Inr sim \<and>
         sim (0, Suc 0) = Num (- 6442446311 / 2147488281)"
proof -
  let ?acc = "traverse pearson_step prod_wrap2_yr zeros"
  note v = pearson_wrap2
  have r: "pearson_radicand ?acc (0, Suc 0) = 2147488281 * 2147488281"
    by (simp add: pearson_radicand_def v c_long_def)
  have m: "pearson_num ?acc (0, Suc 0) = - 6442446311"
    by (simp add: pearson_num_def v c_long_def)
  have rg: "- (2 ^ 63) \<le> pearson_radicand ?acc (i, j) \<and> pearson_radicand ?acc (i, j) < 2 ^ 64"
    if "i < j" "j < 2" for i j
  proof -
    from that have "i = 0" "j = Suc 0" by simp_all
    then show ?thesis by (simp add: r)
  qed
  from pearson_fill_cell[of 2 ?acc, OF rg] obtain sim where
    sim: "pearson_fill 2 ?acc = Inr sim"
    and cells: "\<And>i j. sim (i, j) =
        (if i = j then (if i < 2 then Num 1 else Num 0)
         else if i < j then
           (if j < 2 then
              (if np_sqrt (pearson_radicand ?acc (i, j)) = Num 0 then Num 0
               else np_div (pearson_num ?acc (i, j)) (np_sqrt (pearson_radicand ?acc (i, j))))
            else Num 0)
         else (if i < 2 then
              (if np_sqrt (pearson_radicand ?acc (j, i)) = Num 0 then Num 0
               else np_div (pearson_num ?acc (j, i)) (np_sqrt (pearson_radicand ?acc (j, i))))
            else Num 0))"
    by blast
  have d: "np_sqrt (pearson_radicand ?acc (0, Suc 0)) = Num 2147488281"
    unfolding r using np_sqrt_square[of 2147488281] by simp
  have "sim (0, Suc 0) = Num (- 6442446311 / 2147488281)"
    by (simp add: cells d m)
  moreover have "pearson 2 (py_yr prod_wrap2_yr) = Inr sim"
    by (simp add: pearson_def v(1) sim)
  ultimately show ?thesis by blast
qed

text \<open>
  Claim C4 as stated fails: with the ratings \<open>46341\<close> twice under one \<open>y\<close> and 0 twice under
  another the input is well formed and the sum of \<open>r\<^sub>i * r\<^sub>j\<close> over the co-rated \<open>y\<close>s is
  \<open>2147488281\<close>, but the product of the two C \<^verbatim>\<open>int\<close> wraps around: \<open>prods[0,1]\<close> is
  \<open>-2147479015\<close> and the entry is about -3, where the quotient of the sums is 1.
\<close>

theorem pearson_wrap_counterexample:
  "well_formed 2 prod_wrap2_yr \<and>
   co_sum (\<lambda>ri rj. ri * rj) prod_wrap2_yr 0 1 = 2147488281 \<and>
   (\<exists>acc sim. pearson_acc 2 (py_yr prod_wrap2_yr) = Inr acc \<and>
      pearson 2 (py_yr prod_wrap2_yr) = Inr sim \<and>
      prods acc (0, 1) = - 2147479015 \<and>
      sim (0, 1) = Num (- 6442446311 / 2147488281))"
proof -
  have c: "co_sum (\<lambda>ri rj. ri * rj) prod_wrap2_yr 0 (Suc 0) = 2147488281"
    by (simp add: co_sum_def prod_wrap2_facts)
  from pearson_wrap2_cell pearson_wrap2(1,3) c prod_wrap2_facts(1) show ?thesis by auto
qed

lemma pearson_fill_raises:
  assumes ij: "i < j" "j < n"
    and rad: "\<not> (- (2 ^ 63) \<le> pearson_radicand a (i, j) \<and> pearson_radicand a (i, j) < 2 ^ 64)"
  shows "pearson_fill n a = Inl TypeError"
proof -
  define inner where "inner = (\<lambda>xi xj (sim :: dbl matrix).
         let n = freq a (xi, xj);
             num = n * prods a (xi, xj) - c_long (si a (xi, xj) * sj a (xi, xj));
             radicand = (n * sqi a (xi, xj) - c_long ((si a (xi, xj))\<^sup>2)) *
                        (n * sqj a (xi, xj) - c_long ((sj a (xi, xj))\<^sup>2))
         in case np_sqrt_py radicand of Inl e \<Rightarrow> Inl e
            | Inr denum \<Rightarrow>
              let sim = (if denum = Num 0 then sim((xi, xj) := Num 0)
                         else sim((xi, xj) := np_div num denum))
              in Inr (sim((xj, xi) := sim (xi, xj))))"
  define row where "row = (\<lambda>xi (sim :: dbl matrix).
     for_each (inner xi) [Suc xi..<n] (sim((xi, xi) := Num 1)))"
  have fill: "pearson_fill n a = for_each row [0..<n] (\<lambda>_. Num 0)"
    by (simp add: pearson_fill_def inner_def row_def)
  have innerP: "(\<exists>e. inner xi xj s = Inl e \<and> e = TypeError) \<or> (\<exists>s'. inner xi xj s = Inr s')"
    for xi xj s
    by (simp add: inner_def Let_def np_sqrt_py_def)
  have inner_bad: "\<exists>e. inner i j s = Inl e \<and> e = TypeError" for s
    using rad by (simp add: inner_def Let_def np_sqrt_py_def pearson_radicand_def)
  have rowP: "(\<exists>e. row xi s = Inl e \<and> e = TypeError) \<or> (\<exists>s'. row xi s = Inr s')" for xi s
    unfolding row_def by (rule for_each_cases) (rule innerP)
  have j: "j \<in> set [Suc i..<n]" and i: "i \<in> set [0..<n]" using ij by simp_all
  have row_bad: "\<exists>e. row i s = Inl e \<and> e = TypeError" for s
    unfolding row_def by (rule for_each_raises[OF j], rule inner_bad, rule innerP)
  have "\<exists>e. for_each row [0..<n] (\<lambda>_. Num 0) = Inl e \<and> e = TypeError"
    by (rule for_each_raises[OF i], rule row_bad, rule rowP)
  then show ?thesis by (simp add: fill)
qed

lemma pearson_fill_cases:
  "pearson_fill n a = Inl TypeError \<or>
   (\<exists>sim. pearson_fill n a = Inr sim \<and>
     (\<forall>i j. sim (i, j) =
        (if i = j then (if i < n then Num 1 else Num 0)
         else if i < j then
           (if j < n then
              (if np_sqrt (pearson_radicand a (i, j)) = Num 0 then Num 0
               else np_div (pearson_num a (i, j)) (np_sqrt (pearson_radicand a (i, j))))
            else Num 0)
         else (if i < n then
              (if np_sqrt (pearson_radicand a (j, i)) = Num 0 then Num 0
               else np_div (pearson_num a (j, i)) (np_sqrt (pearson_radicand a (j, i))))
            else Num 0))))"
proof (cases "\<forall>i j. i < j \<and> j < n \<longrightarrow>
     - (2 ^ 63) \<le> pearson_radicand a (i, j) \<and> pearson_radicand a (i, j) < 2 ^ 64")
  case True
  then have "\<And>i j. i < j \<Longrightarrow> j < n \<Longrightarrow>
     - (2 ^ 63) \<le> pearson_radicand a (i, j) \<and> pearson_radicand a (i, j) < 2 ^ 64"
    by blast
  from pearson_fill_cell[OF this] show ?thesis by (rule disjI2)
next
  case False
  then obtain i j where "i < j" "j < n"
    "\<not> (- (2 ^ 63) \<le> pearson_radicand a (i, j) \<and> pearson_radicand a (i, j) < 2 ^ 64)"
    by blast
  from pearson_fill_raises[OF this] show ?thesis by (rule disjI1)
qed

section \<open>Invalid input\<close>

text \<open>What the traversal gives, function by function.\<close>

lemma raises_result:
  assumes n: "0 \<le> n_x" and P: "P IndexError" and O: "converts yr \<or> P OverflowError"
    and B: "\<not> converts yr \<or> id_out_of_bounds n_x yr"
  shows "\<exists>e. cosine n_x yr = Inl e \<and> P e" "\<exists>e. msd n_x yr = Inl e \<and> P e"
    "\<exists>e. msdClone n_x yr = Inl e \<and> P e" "\<exists>e. pearson n_x yr = Inl e \<and> P e"
proof -
  note r = accumulate_result(1)[OF n P O B]
  from r[of cosine_step zeros] n show "\<exists>e. cosine n_x yr = Inl e \<and> P e"
    by (auto simp: cosine_def cosine_acc_def)
  from r[of msd_step zeros] n show "\<exists>e. msd n_x yr = Inl e \<and> P e"
    by (auto simp: msd_def msd_acc_def)
  from r[of mean_diff_step zeros] n show "\<exists>e. msdClone n_x yr = Inl e \<and> P e"
    by (auto simp: msdClone_def msdClone_acc_def compute_mean_diff_def mean_diff_acc_def)
  from r[of pearson_step zeros] n show "\<exists>e. pearson n_x yr = Inl e \<and> P e"
    by (auto simp: pearson_def pearson_acc_def)
qed

lemma returns_result:
  assumes n: "0 \<le> n_x" and C: "converts yr" and I: "\<not> id_out_of_bounds n_x yr"
  shows "\<exists>sim. cosine n_x yr = Inr sim" "\<exists>sim. msd n_x yr = Inr sim"
    "\<exists>sim. msdClone n_x yr = Inr sim"
    "pearson n_x yr = Inl TypeError \<or> (\<exists>sim. pearson n_x yr = Inr sim)"
proof -
  note r = accumulate_result(2)[OF n C I]
  from r[of cosine_step zeros] n show "\<exists>sim. cosine n_x yr = Inr sim"
    by (auto simp: cosine_def cosine_acc_def)
  from r[of msd_step zeros] n show "\<exists>sim. msd n_x yr = Inr sim"
    by (auto simp: msd_def msd_acc_def)
  from r[of mean_diff_step zeros] n obtain md where md: "compute_mean_diff n_x yr = Inr md"
    by (auto simp: compute_mean_diff_def mean_diff_acc_def)
  from r[of "msdClone_step md" zeros] n md show "\<exists>sim. msdClone n_x yr = Inr sim"
    by (auto simp: msdClone_def msdClone_acc_def)
  from r[of pearson_step zeros] obtain a where a: "accumulate n_x pearson_step yr zeros = Inr a"
    by blast
  from pearson_fill_cases[of "nat n_x" a] n a
  show "pearson n_x yr = Inl TypeError \<or> (\<exists>sim. pearson n_x yr = Inr sim)"
    by (auto simp: pearson_def pearson_acc_def)
qed

lemma wrap_ids_result:
  assumes n: "0 \<le> n_x" "n_x \<le> 2 ^ 31" and C: "converts yr" and I: "\<not> id_out_of_bounds n_x yr"
  shows "cosine n_x (wrap_ids n_x yr) = cosine n_x yr" "msd n_x (wrap_ids n_x yr) = msd n_x yr"
    "compute_mean_diff n_x (wrap_ids n_x yr) = compute_mean_diff n_x yr"
    "msdClone n_x (wrap_ids n_x yr) = msdClone n_x yr"
    "pearson n_x (wrap_ids n_x yr) = pearson n_x yr"
  by (rule same_traversal, rule accumulate_result(3)[OF n(1) C I n(2)])+

text \<open>
  Claim C9, as amended. A negative \<open>n_x\<close> makes each of the four functions raise
  (\<^verbatim>\<open>ValueError\<close>, from \<^verbatim>\<open>np.zeros\<close>). With \<open>n_x \<ge> 0\<close>, an \<open>x\<close> id below \<open>-n_x\<close> or at least
  \<open>n_x\<close>, or an id or a rating that does not fit a C \<^verbatim>\<open>int\<close>, makes each of them raise
  \<^verbatim>\<open>OverflowError\<close> or \<^verbatim>\<open>IndexError\<close>; it is \<^verbatim>\<open>IndexError\<close> when every id and rating fits.
  When \<open>n_x < 2\<^sup>3\<^sup>1\<close>, every id and rating fits and every id lies in \<open>[-n_x, n_x)\<close>, no
  function raises for an id: each gives what it gives on the input in which every id
  \<open>x < 0\<close> is replaced by \<open>x + n_x\<close>; \<^verbatim>\<open>cosine\<close>, \<^verbatim>\<open>msd\<close> and \<^verbatim>\<open>msdClone\<close> return a matrix and
  \<^verbatim>\<open>pearson\<close> returns one unless its square root raises.
\<close>

theorem invalid_input_errors:
  "(n_x < 0 \<longrightarrow>
      cosine n_x yr = Inl ValueError \<and> msd n_x yr = Inl ValueError \<and>
      msdClone n_x yr = Inl ValueError \<and> pearson n_x yr = Inl ValueError) \<and>
   (0 \<le> n_x \<and> (\<not> converts yr \<or> id_out_of_bounds n_x yr) \<longrightarrow>
      cosine n_x yr \<in> {Inl OverflowError, Inl IndexError} \<and>
      msd n_x yr \<in> {Inl OverflowError, Inl IndexError} \<and>
      msdClone n_x yr \<in> {Inl OverflowError, Inl IndexError} \<and>
      pearson n_x yr \<in> {Inl OverflowError, Inl IndexError}) \<and>
   (0 \<le> n_x \<and> converts yr \<and> id_out_of_bounds n_x yr \<longrightarrow>
      cosine n_x yr = Inl IndexError \<and> msd n_x yr = Inl IndexError \<and>
      msdClone n_x yr = Inl IndexError \<and> pearson n_x yr = Inl IndexError) \<and>
   (0 \<le> n_x \<and> n_x < 2 ^ 31 \<and> converts yr \<and> \<not> id_out_of_bounds n_x yr \<longrightarrow>
      cosine n_x yr = cosine n_x (wrap_ids n_x yr) \<and>
      msd n_x yr = msd n_x (wrap_ids n_x yr) \<and>
      msdClone n_x yr = msdClone n_x (wrap_ids n_x yr) \<and>
      pearson n_x yr = pearson n_x (wrap_ids n_x yr) \<and>
      (\<exists>sim. cosine n_x yr = Inr sim) \<and> (\<exists>sim. msd n_x yr = Inr sim) \<and>
      (\<exists>sim. msdClone n_x yr = Inr sim) \<and>
      (pearson n_x yr = Inl TypeError \<or> (\<exists>sim. pearson n_x yr = Inr sim)))"
proof -
  have p1: "n_x < 0 \<longrightarrow>
      cosine n_x yr = Inl ValueError \<and> msd n_x yr = Inl ValueError \<and>
      msdClone n_x yr = Inl ValueError \<and> pearson n_x yr = Inl ValueError"
    by (simp add: negative_n_x)
  have p2: "0 \<le> n_x \<and> (\<not> converts yr \<or> id_out_of_bounds n_x yr) \<longrightarrow>
      cosine n_x yr \<in> {Inl OverflowError, Inl IndexError} \<and>
      msd n_x yr \<in> {Inl OverflowError, Inl IndexError} \<and>
      msdClone n_x yr \<in> {Inl OverflowError, Inl IndexError} \<and>
      pearson n_x yr \<in> {Inl OverflowError, Inl IndexError}"
  proof
    assume h: "0 \<le> n_x \<and> (\<not> converts yr \<or> id_out_of_bounds n_x yr)"
    then have n: "0 \<le> n_x" and B: "\<not> converts yr \<or> id_out_of_bounds n_x yr" by simp_all
    have "\<exists>e. cosine n_x yr = Inl e \<and> (e = OverflowError \<or> e = IndexError)"
      "\<exists>e. msd n_x yr = Inl e \<and> (e = OverflowError \<or> e = IndexError)"
      "\<exists>e. msdClone n_x yr = Inl e \<and> (e = OverflowError \<or> e = IndexError)"
      "\<exists>e. pearson n_x yr = Inl e \<and> (e = OverflowError \<or> e = IndexError)"
      by (rule raises_result[OF n _ _ B]; simp)+
    then show "cosine n_x yr \<in> {Inl OverflowError, Inl IndexError} \<and>
      msd n_x yr \<in> {Inl OverflowError, Inl IndexError} \<and>
      msdClone n_x yr \<in> {Inl OverflowError, Inl IndexError} \<and>
      pearson n_x yr \<in> {Inl OverflowError, Inl IndexError}"
      by auto
  qed
  have p3: "0 \<le> n_x \<and> converts yr \<and> id_out_of_bounds n_x yr \<longrightarrow>
      cosine n_x yr = Inl IndexError \<and> msd n_x yr = Inl IndexError \<and>
      msdClone n_x yr = Inl IndexError \<and> pearson n_x yr = Inl IndexError"
  proof
    assume h: "0 \<le> n_x \<and> converts yr \<and> id_out_of_bounds n_x yr"
    then have n: "0 \<le> n_x" and C: "converts yr \<or> IndexError = OverflowError"
      and B: "\<not> converts yr \<or> id_out_of_bounds n_x yr" by simp_all
    have "\<exists>e. cosine n_x yr = Inl e \<and> IndexError = e"
      "\<exists>e. msd n_x yr = Inl e \<and> IndexError = e"
      "\<exists>e. msdClone n_x yr = Inl e \<and> IndexError = e"
      "\<exists>e. pearson n_x yr = Inl e \<and> IndexError = e"
      by (rule raises_result[OF n refl C B])+
    then show "cosine n_x yr = Inl IndexError \<and> msd n_x yr = Inl IndexError \<and>
      msdClone n_x yr = Inl IndexError \<and> pearson n_x yr = Inl IndexError"
      by auto
  qed
  have p4: "0 \<le> n_x \<and> n_x < 2 ^ 31 \<and> converts yr \<and> \<not> id_out_of_bounds n_x yr \<longrightarrow>
      cosine n_x yr = cosine n_x (wrap_ids n_x yr) \<and>
      msd n_x yr = msd n_x (wrap_ids n_x yr) \<and>
      msdClone n_x yr = msdClone n_x (wrap_ids n_x yr) \<and>
      pearson n_x yr = pearson n_x (wrap_ids n_x yr) \<and>
      (\<exists>sim. cosine n_x yr = Inr sim) \<and> (\<exists>sim. msd n_x yr = Inr sim) \<and>
      (\<exists>sim. msdClone n_x yr = Inr sim) \<and>
      (pearson n_x yr = Inl TypeError \<or> (\<exists>sim. pearson n_x yr = Inr sim))"
  proof
    assume h: "0 \<le> n_x \<and> n_x < 2 ^ 31 \<and> converts yr \<and> \<not> id_out_of_bounds n_x yr"
    then have n: "0 \<le> n_x" "n_x \<le> 2 ^ 31" and C: "converts yr"
      and I: "\<not> id_out_of_bounds n_x yr" by simp_all
    note w = wrap_ids_result[OF n C I] and r = returns_result[OF n(1) C I]
    show "cosine n_x yr = cosine n_x (wrap_ids n_x yr) \<and>
      msd n_x yr = msd n_x (wrap_ids n_x yr) \<and>
      msdClone n_x yr = msdClone n_x (wrap_ids n_x yr) \<and>
      pearson n_x yr = pearson n_x (wrap_ids n_x yr) \<and>
      (\<exists>sim. cosine n_x yr = Inr sim) \<and> (\<exists>sim. msd n_x yr = Inr sim) \<and>
      (\<exists>sim. msdClone n_x yr = Inr sim) \<and>
      (pearson n_x yr = Inl TypeError \<or> (\<exists>sim. pearson n_x yr = Inr sim))"
      by (intro conjI) (simp_all only: w r)
  qed
  from p1 p2 p3 p4 show ?thesis by (intro conjI)
qed

lemma bounds_examples:
  "converts big_yr" "id_out_of_bounds 3 big_yr"
  "converts neg_yr" "\<not> id_out_of_bounds 3 neg_yr" "id_outside_range 3 neg_yr"
  "\<not> converts (py_yr overflow_yr)"
  "wrap_ids 3 neg_yr = py_yr [(0 :: nat, [(2, 3), (0, 5)])]"
  by (simp_all add: converts_def id_out_of_bounds_def id_outside_range_def big_yr_def neg_yr_def
        overflow_yr_def py_yr_def wrap_ids_def fits_int_def)

theorem invalid_input_errors_witness:
  "cosine (- 1) ([] :: nat yr) = Inl ValueError \<and> pearson (- 1) ([] :: nat yr) = Inl ValueError \<and>
   \<not> converts (py_yr overflow_yr) \<and>
   msd 2 (py_yr overflow_yr) \<in> {Inl OverflowError, Inl IndexError} \<and>
   converts big_yr \<and> id_out_of_bounds 3 big_yr \<and> cosine 3 big_yr = Inl IndexError \<and>
   msdClone 3 big_yr = Inl IndexError \<and>
   converts neg_yr \<and> \<not> id_out_of_bounds 3 neg_yr \<and>
   cosine 3 neg_yr = cosine 3 (py_yr [(0 :: nat, [(2, 3), (0, 5)])]) \<and>
   (\<exists>sim. msd 3 neg_yr = Inr sim)"
proof -
  note t1 = invalid_input_errors[of "- 1" "[] :: nat yr", THEN conjunct1, THEN mp]
  note t2 = invalid_input_errors[of 2 "py_yr overflow_yr", THEN conjunct2, THEN conjunct1,
              THEN mp]
  note t3 = invalid_input_errors[of 3 big_yr, THEN conjunct2, THEN conjunct2, THEN conjunct1,
              THEN mp]
  note t4 = invalid_input_errors[of 3 neg_yr, THEN conjunct2, THEN conjunct2, THEN conjunct2,
              THEN mp]
  note b = bounds_examples
  have a: "cosine (- 1) ([] :: nat yr) = Inl ValueError"
    "pearson (- 1) ([] :: nat yr) = Inl ValueError"
    using t1 by simp_all
  have o: "msd 2 (py_yr overflow_yr) \<in> {Inl OverflowError, Inl IndexError}"
    using t2 b(6) by simp
  have g: "cosine 3 big_yr = Inl IndexError" "msdClone 3 big_yr = Inl IndexError"
    using t3 b(1,2) by simp_all
  have "0 \<le> (3::int) \<and> (3::int) < 2 ^ 31 \<and> converts neg_yr \<and> \<not> id_out_of_bounds 3 neg_yr"
    using b(3,4) by simp
  from t4[OF this] have w: "cosine 3 neg_yr = cosine 3 (wrap_ids 3 neg_yr)"
    and m: "\<exists>sim. msd 3 neg_yr = Inr sim"
    by blast+
  have w': "cosine 3 neg_yr = cosine 3 (py_yr [(0 :: nat, [(2, 3), (0, 5)])])"
    by (rule w[unfolded b(7)])
  from a o g w' m b(1,2,3,4,6) show ?thesis by (intro conjI)
qed

lemma np_sqrt_225: "np_sqrt 225 = Num 15"
  using np_sqrt_square[of 15] by simp

text \<open>
  Claim C9 as stated fails: the id \<open>-1\<close> lies outside \<open>[0, 3)\<close>, yet none of the four functions
  raises; \<^verbatim>\<open>cosine\<close> silently counts its rating for the entity \<open>-1 + 3 = 2\<close>.
\<close>

theorem negative_id_counterexample:
  "id_outside_range 3 neg_yr \<and>
   (\<exists>sim. cosine 3 neg_yr = Inr sim \<and> sim (0, 2) = Num 1 \<and> sim (0, 1) = Num 0) \<and>
   (\<exists>sim. msd 3 neg_yr = Inr sim) \<and> (\<exists>sim. msdClone 3 neg_yr = Inr sim) \<and>
   (\<exists>sim. pearson 3 neg_yr = Inr sim)"
proof (intro conjI)
  show "id_outside_range 3 neg_yr" by (rule bounds_examples)
  let ?yr = "[(0 :: nat, [(2 :: int, 3 :: int), (0, 5)])]"
  have n: "(0::int) \<le> 3" "(3::int) \<le> 2 ^ 31" by simp_all
  note w = wrap_ids_result[OF n bounds_examples(3,4), unfolded bounds_examples(7)]
  have wf: "well_formed 3 ?yr"
    by (simp add: well_formed_def)
  have rg: "pearson_range 3 5 ?yr"
    by (simp add: pearson_range_def ratings_le_def)
  have co: "co_rated ?yr 0 2 = [(5, 3)]" "co_rated ?yr 0 (Suc 0) = []"
    by (simp_all add: co_rated_def)
  note ok = cosine_acc_ok[OF wf pearson_range_cosine[OF rg]]
  have "cosine_fill 3 (traverse cosine_step ?yr zeros) (0, 2) = Num 1"
    by (simp add: cosine_fill_cell ok co_sum_def co_freq_def co np_sqrt_225 c_long_def)
  moreover have "cosine_fill 3 (traverse cosine_step ?yr zeros) (0, Suc 0) = Num 0"
    by (simp add: cosine_fill_cell ok co_sum_def co_freq_def co)
  ultimately show "\<exists>sim. cosine 3 neg_yr = Inr sim \<and> sim (0, 2) = Num 1 \<and> sim (0, 1) = Num 0"
    unfolding w(1)[symmetric] by (simp add: cosine_def ok(1))
  note r = returns_result[OF n(1) bounds_examples(3,4)]
  show "\<exists>sim. msd 3 neg_yr = Inr sim" by (rule r)
  show "\<exists>sim. msdClone 3 neg_yr = Inr sim" by (rule r)
  from pearson_ok[OF wf rg] show "\<exists>sim. pearson 3 neg_yr = Inr sim"
    unfolding w(5)[symmetric] by blast
qed

section \<open>Affine ratings under pearson\<close>

lemma affine_sums:
  assumes "affine_on a b ps"
  shows "real_of_int (\<Sum>(x, y)\<leftarrow>ps. y) = a * real_of_int (\<Sum>(x, y)\<leftarrow>ps. x) + real (length ps) * b"
    and "real_of_int (\<Sum>(x, y)\<leftarrow>ps. x * y) =
           a * real_of_int (\<Sum>(x, y)\<leftarrow>ps. x\<^sup>2) + b * real_of_int (\<Sum>(x, y)\<leftarrow>ps. x)"
    and "real_of_int (\<Sum>(x, y)\<leftarrow>ps. y\<^sup>2) =
           a\<^sup>2 * real_of_int (\<Sum>(x, y)\<leftarrow>ps. x\<^sup>2) + 2 * a * b * real_of_int (\<Sum>(x, y)\<leftarrow>ps. x) +
           real (length ps) * b\<^sup>2"
  using assms
proof (induction ps)
  case Nil
  { case 1 show ?case by simp }
  { case 2 show ?case by simp }
  { case 3 show ?case by simp }
next
  case (Cons p ps)
  obtain x y where p: "p = (x, y)" by (cases p)
  { case 1
    then have "affine_on a b ps" and xy: "real_of_int y = a * real_of_int x + b"
      by (auto simp: affine_on_def p)
    from Cons.IH(1)[OF this(1)] xy show ?case
      by (simp add: p algebra_simps) }
  { case 2
    then have "affine_on a b ps" and xy: "real_of_int y = a * real_of_int x + b"
      by (auto simp: affine_on_def p)
    from Cons.IH(2)[OF this(1)] xy show ?case
      by (simp add: p algebra_simps power2_eq_square) }
  { case 3
    then have "affine_on a b ps" and xy: "real_of_int y = a * real_of_int x + b"
      by (auto simp: affine_on_def p)
    from Cons.IH(3)[OF this(1)] xy show ?case
      by (simp add: p algebra_simps power2_eq_square) }
qed

lemma pearson_algebra:
  fixes n Sx Sy Sxx Syy Sxy :: int and a b :: real
  assumes "real_of_int Sy = a * real_of_int Sx + real_of_int n * b"
    and "real_of_int Sxy = a * real_of_int Sxx + b * real_of_int Sx"
    and "real_of_int Syy = a\<^sup>2 * real_of_int Sxx + 2 * a * b * real_of_int Sx + real_of_int n * b\<^sup>2"
  shows "real_of_int (n * Sxy - Sx * Sy) = a * real_of_int (n * Sxx - Sx\<^sup>2)"
    and "real_of_int ((n * Sxx - Sx\<^sup>2) * (n * Syy - Sy\<^sup>2)) = (a * real_of_int (n * Sxx - Sx\<^sup>2))\<^sup>2"
  using assms by (simp_all add: algebra_simps power2_eq_square)

lemma pearson_quotient_one:
  fixes num radicand v :: int and a :: real
  assumes a: "0 < a" and v: "0 < v"
    and num: "real_of_int num = a * real_of_int v"
    and rad: "real_of_int radicand = (a * real_of_int v)\<^sup>2"
  shows "(if np_sqrt radicand = Num 0 then Num 0 else np_div num (np_sqrt radicand)) = Num 1"
proof -
  from a v have pos: "0 < a * real_of_int v" by simp
  have "0 \<le> real_of_int radicand" unfolding rad by simp
  then have "0 \<le> radicand" by simp
  then have "np_sqrt radicand = Num (sqrt (real_of_int radicand))" by (rule np_sqrt_nonneg)
  also have "sqrt (real_of_int radicand) = a * real_of_int v"
    unfolding rad using pos by simp
  finally have root: "np_sqrt radicand = Num (a * real_of_int v)" .
  from a v show ?thesis unfolding root by (simp add: num)
qed

lemma pearson_value:
  assumes wf: "well_formed n_x yr" and rg: "pearson_range n_x R yr"
    and ij: "i \<noteq> j" "i < nat n_x" "j < nat n_x"
  shows "\<exists>sim. pearson n_x (py_yr yr) = Inr sim \<and> sim (i, j) =
     (if np_sqrt ((co_freq yr i j * co_sum (\<lambda>ri rj. ri\<^sup>2) yr i j - (co_sum (\<lambda>ri rj. ri) yr i j)\<^sup>2) *
                  (co_freq yr i j * co_sum (\<lambda>ri rj. rj\<^sup>2) yr i j - (co_sum (\<lambda>ri rj. rj) yr i j)\<^sup>2)) = Num 0
      then Num 0
      else np_div (co_freq yr i j * co_sum (\<lambda>ri rj. ri * rj) yr i j -
                   co_sum (\<lambda>ri rj. ri) yr i j * co_sum (\<lambda>ri rj. rj) yr i j)
             (np_sqrt ((co_freq yr i j * co_sum (\<lambda>ri rj. ri\<^sup>2) yr i j - (co_sum (\<lambda>ri rj. ri) yr i j)\<^sup>2) *
                       (co_freq yr i j * co_sum (\<lambda>ri rj. rj\<^sup>2) yr i j - (co_sum (\<lambda>ri rj. rj) yr i j)\<^sup>2))))"
proof -
  let ?acc = "traverse pearson_step yr zeros"
  from pearson_ok[OF wf rg] obtain sim where
    sim: "pearson n_x (py_yr yr) = Inr sim"
    and cells: "\<And>i j. sim (i, j) =
        (if i = j then (if i < nat n_x then Num 1 else Num 0)
         else if i < j then
           (if j < nat n_x then
              (if np_sqrt (pearson_radicand ?acc (i, j)) = Num 0 then Num 0
               else np_div (pearson_num ?acc (i, j)) (np_sqrt (pearson_radicand ?acc (i, j))))
            else Num 0)
         else (if i < nat n_x then
              (if np_sqrt (pearson_radicand ?acc (j, i)) = Num 0 then Num 0
               else np_div (pearson_num ?acc (j, i)) (np_sqrt (pearson_radicand ?acc (j, i))))
            else Num 0))"
    by blast
  have r: "pearson_radicand ?acc (i, j) =
      (co_freq yr i j * co_sum (\<lambda>ri rj. ri\<^sup>2) yr i j - (co_sum (\<lambda>ri rj. ri) yr i j)\<^sup>2) *
      (co_freq yr i j * co_sum (\<lambda>ri rj. rj\<^sup>2) yr i j - (co_sum (\<lambda>ri rj. rj) yr i j)\<^sup>2)"
    for i j
    by (simp only: pearson_terms_ok(2)[OF wf rg] pearson_acc_ok[OF wf rg])
  have m: "pearson_num ?acc (i, j) =
      co_freq yr i j * co_sum (\<lambda>ri rj. ri * rj) yr i j -
      co_sum (\<lambda>ri rj. ri) yr i j * co_sum (\<lambda>ri rj. rj) yr i j"
    for i j
    by (simp only: pearson_terms_ok(1)[OF wf rg] pearson_acc_ok[OF wf rg])
  have "sim (i, j) =
     (if np_sqrt ((co_freq yr i j * co_sum (\<lambda>ri rj. ri\<^sup>2) yr i j - (co_sum (\<lambda>ri rj. ri) yr i j)\<^sup>2) *
                  (co_freq yr i j * co_sum (\<lambda>ri rj. rj\<^sup>2) yr i j - (co_sum (\<lambda>ri rj. rj) yr i j)\<^sup>2)) = Num 0
      then Num 0
      else np_div (co_freq yr i j * co_sum (\<lambda>ri rj. ri * rj) yr i j -
                   co_sum (\<lambda>ri rj. ri) yr i j * co_sum (\<lambda>ri rj. rj) yr i j)
             (np_sqrt ((co_freq yr i j * co_sum (\<lambda>ri rj. ri\<^sup>2) yr i j - (co_sum (\<lambda>ri rj. ri) yr i j)\<^sup>2) *
                       (co_freq yr i j * co_sum (\<lambda>ri rj. rj\<^sup>2) yr i j - (co_sum (\<lambda>ri rj. rj) yr i j)\<^sup>2))))"
  proof (cases "i < j")
    case True
    with ij show ?thesis by (simp add: cells r m)
  next
    case False
    with ij have ji: "j < i" by simp
    have sw: "co_freq yr j i = co_freq yr i j"
      "co_sum (\<lambda>ri rj. ri\<^sup>2) yr j i = co_sum (\<lambda>ri rj. rj\<^sup>2) yr i j"
      "co_sum (\<lambda>ri rj. rj\<^sup>2) yr j i = co_sum (\<lambda>ri rj. ri\<^sup>2) yr i j"
      "co_sum (\<lambda>ri rj. ri) yr j i = co_sum (\<lambda>ri rj. rj) yr i j"
      "co_sum (\<lambda>ri rj. rj) yr j i = co_sum (\<lambda>ri rj. ri) yr i j"
      "co_sum (\<lambda>ri rj. ri * rj) yr j i = co_sum (\<lambda>ri rj. ri * rj) yr i j"
      by (simp_all add: co_freq_swap[of yr j i] co_sum_swap[of _ yr j i] mult.commute)
    from ji ij show ?thesis
      by (simp add: cells r m sw mult.commute)
  qed
  with sim show ?thesis by blast
qed

lemma affine_facts:
  "well_formed 2 affine_yr" "pearson_range 2 11 affine_yr"
  "co_rated affine_yr 0 (Suc 0) = [(1, 5), (2, 7), (4, 11)]"
  by (simp_all add: well_formed_def pearson_range_def ratings_le_def affine_yr_def co_rated_def)

lemma pearson_affine_int:
  assumes wf: "well_formed n_x yr" and rg: "pearson_range n_x R yr"
    and ij: "i \<noteq> j" "i < nat n_x" "j < nat n_x"
    and a: "0 < a"
    and affine: "affine_on a b (co_rated yr i j)"
    and varies: "rating_varies (co_rated yr i j)"
  shows "\<exists>sim. pearson n_x (py_yr yr) = Inr sim \<and> sim (i, j) = Num 1"
proof -
  let ?ps = "co_rated yr i j"
  let ?n = "co_freq yr i j"
  let ?Sx = "co_sum (\<lambda>ri rj. ri) yr i j" and ?Sy = "co_sum (\<lambda>ri rj. rj) yr i j"
  let ?Sxx = "co_sum (\<lambda>ri rj. ri\<^sup>2) yr i j" and ?Syy = "co_sum (\<lambda>ri rj. rj\<^sup>2) yr i j"
  let ?Sxy = "co_sum (\<lambda>ri rj. ri * rj) yr i j"
  note s = affine_sums[OF affine]
  have rel: "real_of_int ?Sy = a * real_of_int ?Sx + real_of_int ?n * b"
    "real_of_int ?Sxy = a * real_of_int ?Sxx + b * real_of_int ?Sx"
    "real_of_int ?Syy = a\<^sup>2 * real_of_int ?Sxx + 2 * a * b * real_of_int ?Sx + real_of_int ?n * b\<^sup>2"
    using s by (simp_all add: co_sum_def co_freq_def)
  from varies obtain p q where pq: "p \<in> set ?ps" "q \<in> set ?ps" "fst p \<noteq> fst q"
    by (auto simp: rating_varies_def)
  then have "fst p \<in> set (map fst ?ps)" "fst q \<in> set (map fst ?ps)" by simp_all
  from variance_pos[OF this pq(3)]
  have v: "0 < ?n * ?Sxx - ?Sx\<^sup>2"
    by (simp add: co_sum_fst co_freq_def)
  from pearson_value[OF wf rg ij] obtain sim where
    sim: "pearson n_x (py_yr yr) = Inr sim"
    and c: "sim (i, j) =
     (if np_sqrt ((?n * ?Sxx - ?Sx\<^sup>2) * (?n * ?Syy - ?Sy\<^sup>2)) = Num 0 then Num 0
      else np_div (?n * ?Sxy - ?Sx * ?Sy)
             (np_sqrt ((?n * ?Sxx - ?Sx\<^sup>2) * (?n * ?Syy - ?Sy\<^sup>2))))"
    by blast
  have "sim (i, j) = Num 1"
    unfolding c by (rule pearson_quotient_one[OF a v pearson_algebra[OF rel]])
  with sim show ?thesis by blast
qed

text \<open>
  Claim C8, as amended. A rating counts as the integer that its assignment to a C \<^verbatim>\<open>int\<close>
  gives (a float is truncated). For a well-formed input whose ratings are in the range of
  \<open>pearson_range\<close> and two different entities \<open>i\<close>, \<open>j\<close>, if the rating of \<open>j\<close> is
  \<open>a * r\<^sub>i + b\<close> with \<open>a > 0\<close> on every co-rated \<open>y\<close> and the rating of \<open>i\<close> is not the same on
  all co-rated \<open>y\<close>s, then \<^verbatim>\<open>pearson\<close> returns 1 at \<open>(i, j)\<close>.
\<close>

theorem pearson_affine:
  assumes wf: "well_formed n_x (int_ratings yr)" and rg: "pearson_range n_x R (int_ratings yr)"
    and ij: "i \<noteq> j" "i < nat n_x" "j < nat n_x"
    and a: "0 < a"
    and affine: "affine_on a b (co_rated (int_ratings yr) i j)"
    and varies: "rating_varies (co_rated (int_ratings yr) i j)"
  shows "\<exists>sim. pearson n_x yr = Inr sim \<and> sim (i, j) = Num 1"
  using assms
  by (rule pearson_affine_int[where yr = "int_ratings yr", unfolded float_ratings_truncated])

theorem pearson_affine_witness:
  "well_formed 2 affine_yr \<and> pearson_range 2 11 affine_yr \<and>
   (0::nat) \<noteq> 1 \<and> 0 < nat 2 \<and> 1 < nat 2 \<and> (0::real) < 2 \<and>
   affine_on 2 3 (co_rated affine_yr 0 1) \<and> rating_varies (co_rated affine_yr 0 1) \<and>
   (\<exists>sim. pearson 2 (py_yr affine_yr) = Inr sim \<and> sim (0, 1) = Num 1)"
proof -
  have ij: "(0::nat) \<noteq> 1" "0 < nat 2" "1 < nat 2" and a: "(0::real) < 2" by simp_all
  have af: "affine_on 2 3 (co_rated affine_yr 0 1)"
    by (simp add: affine_on_def affine_facts)
  have va: "rating_varies (co_rated affine_yr 0 1)"
    by (auto simp: rating_varies_def affine_facts)
  from pearson_affine[where yr = "py_yr affine_yr", unfolded int_ratings_py,
         OF affine_facts(1,2) ij a af va] affine_facts(1,2) ij a af va
  show ?thesis by (intro conjI)
qed

text \<open>
  Claim C8 as stated fails twice. The entities 0 and 2 of the example have one co-rated
  \<open>y\<close>, with the ratings 4 and 1, so the rating of 2 is \<open>1 * r + (-3)\<close> on every co-rated \<open>y\<close>:
  both factors under the root are 0 and \<^verbatim>\<open>pearson\<close> returns 0, not 1. And with the ratings
  \<open>46341\<close> twice under one \<open>y\<close> and 0 twice under another the two entities have the same
  rating on every co-rated \<open>y\<close>, but the product of the two C \<^verbatim>\<open>int\<close> wraps around and
  \<^verbatim>\<open>pearson\<close> returns about -3.
\<close>

theorem pearson_affine_counterexample:
  "well_formed 3 example_yr \<and> pearson_range 3 5 example_yr \<and>
   (0::nat) \<noteq> 2 \<and> 0 < co_freq example_yr 0 2 \<and> (0::real) < 1 \<and>
   affine_on 1 (- 3) (co_rated example_yr 0 2) \<and>
   (\<exists>sim. pearson 3 (py_yr example_yr) = Inr sim \<and> sim (0, 2) = Num 0 \<and> sim (0, 2) \<noteq> Num 1) \<and>
   well_formed 2 prod_wrap2_yr \<and> affine_on 1 0 (co_rated prod_wrap2_yr 0 1) \<and>
   rating_varies (co_rated prod_wrap2_yr 0 1) \<and>
   (\<exists>sim. pearson 2 (py_yr prod_wrap2_yr) = Inr sim \<and>
          sim (0, 1) = Num (- 6442446311 / 2147488281) \<and> sim (0, 1) \<noteq> Num 1)"
proof -
  have ij: "(0::nat) \<noteq> 2" "0 < nat 3" "2 < nat 3" by simp_all
  from pearson_value[OF example_facts(1,4) ij]
  have "\<exists>sim. pearson 3 (py_yr example_yr) = Inr sim \<and> sim (0, 2) = Num 0 \<and>
              sim (0, 2) \<noteq> Num 1"
    by (auto simp: co_sum_def co_freq_def co_rated_example np_sqrt_def)
  moreover have "affine_on 1 (- 3) (co_rated example_yr 0 2)"
    by (simp add: affine_on_def co_rated_example)
  moreover have "0 < co_freq example_yr 0 2"
    by (simp add: co_freq_def co_rated_example)
  moreover have "affine_on 1 0 (co_rated prod_wrap2_yr 0 1)"
    by (simp add: affine_on_def prod_wrap2_facts)
  moreover have "rating_varies (co_rated prod_wrap2_yr 0 1)"
    by (auto simp: rating_varies_def prod_wrap2_facts)
  moreover from pearson_wrap2_cell
  have "\<exists>sim. pearson 2 (py_yr prod_wrap2_yr) = Inr sim \<and>
          sim (0, 1) = Num (- 6442446311 / 2147488281) \<and> sim (0, 1) \<noteq> Num 1"
    by auto
  ultimately show ?thesis using example_facts(1,4) prod_wrap2_facts(1) by simp
qed

section \<open>No co-rating, and symmetry\<close>

lemma pearson_wrapped_cases:
  assumes wf: "well_formed n_x yr" and n: "n_x \<le> 2 ^ 31" and fit: "ratings_fit yr"
  defines "acc \<equiv> traverse pearson_step yr zeros"
  shows "pearson n_x (py_yr yr) = Inl TypeError \<or>
   (\<exists>sim. pearson n_x (py_yr yr) = Inr sim \<and>
     (\<forall>i j. sim (i, j) =
        (if i = j then (if i < nat n_x then Num 1 else Num 0)
         else if i < j then
           (if j < nat n_x then
              (if np_sqrt (pearson_radicand acc (i, j)) = Num 0 then Num 0
               else np_div (pearson_num acc (i, j)) (np_sqrt (pearson_radicand acc (i, j))))
            else Num 0)
         else (if i < nat n_x then
              (if np_sqrt (pearson_radicand acc (j, i)) = Num 0 then Num 0
               else np_div (pearson_num acc (j, i)) (np_sqrt (pearson_radicand acc (j, i))))
            else Num 0))))"
proof -
  have "pearson n_x (py_yr yr) = pearson_fill (nat n_x) acc"
    by (simp add: pearson_def pearson_acc_wrapped(1)[OF wf n fit] acc_def)
  then show ?thesis by (simp only: pearson_fill_cases[of "nat n_x" acc])
qed

lemma pearson_no_co_rating:
  assumes wf: "well_formed n_x yr" and n: "n_x \<le> 2 ^ 31" and fit: "ratings_fit yr"
    and none: "co_freq yr i j = 0"
  shows "pearson_radicand (traverse pearson_step yr zeros) (i, j) = 0"
proof -
  note w = pearson_acc_wrapped(2-7)[OF wf n fit, of i j]
  note z = co_sum_no_co_rating[OF none]
  show ?thesis
    by (simp add: pearson_radicand_def w z none c_long_0)
qed

lemma ieee_eq_same: "ieee_eq a a \<longleftrightarrow> a \<noteq> NaN"
  by (simp add: ieee_eq_def)

lemma example4_facts:
  "well_formed 4 example_yr" "pearson_range 4 5 example_yr" "ratings_fit example_yr"
  "co_rated example_yr 3 0 = []" "co_rated example_yr 0 3 = []"
  by (simp_all add: well_formed_def pearson_range_def ratings_le_def ratings_fit_def fits_int_def
        example_yr_def co_rated_def)

lemma no_co_rating_fallback_int:
  assumes wf: "well_formed n_x yr" and n: "n_x < 2 ^ 31" and fit: "ratings_fit yr"
    and ij: "i \<noteq> j" "i < nat n_x" "j < nat n_x"
    and none: "co_freq yr i j = 0"
  shows "(\<exists>sim. cosine n_x (py_yr yr) = Inr sim \<and> sim (i, j) = Num 0) \<and>
         (\<exists>acc sim. msd_acc n_x (py_yr yr) = Inr acc \<and> sq_diff acc (i, j) = 0 \<and>
                    freq acc (i, j) = 0 \<and> msd n_x (py_yr yr) = Inr sim \<and> sim (i, j) = 0) \<and>
         (\<exists>acc sim. msdClone_acc n_x (py_yr yr) = Inr acc \<and> sq_diff acc (i, j) = 0 \<and>
                    freq acc (i, j) = 0 \<and> msdClone n_x (py_yr yr) = Inr sim \<and> sim (i, j) = 0) \<and>
         (pearson n_x (py_yr yr) = Inl TypeError \<or>
          (\<exists>sim. pearson n_x (py_yr yr) = Inr sim \<and> sim (i, j) = Num 0)) \<and>
         (pearson_range n_x R yr \<longrightarrow>
          (\<exists>sim. pearson n_x (py_yr yr) = Inr sim \<and> sim (i, j) = Num 0))"
proof -
  from n have n': "n_x \<le> 2 ^ 31" by simp
  from none have none': "co_freq yr j i = 0"
    by (simp add: co_freq_swap[of yr j i])
  note z = co_sum_no_co_rating[OF none] co_sum_no_co_rating[OF none']
  note cw = cosine_acc_wrapped[OF wf n' fit]
  have c: "cosine_fill (nat n_x) (traverse cosine_step yr zeros) (i, j) = Num 0"
    using ij by (simp add: cosine_fill_cell cw none none' c_long_0)
  note mw = msd_acc_wrapped[OF wf n' fit]
  have mq: "sq_diff (traverse msd_step yr zeros) (i, j) = 0"
    "sq_diff (traverse msd_step yr zeros) (j, i) = 0"
    "freq (traverse msd_step yr zeros) (i, j) = 0"
    "freq (traverse msd_step yr zeros) (j, i) = 0"
    by (simp_all add: mw z none none' c_long_0)
  have m: "msd_fill (nat n_x) (traverse msd_step yr zeros) (i, j) = 0"
    using ij by (simp add: msd_fill_cell mq)
  let ?md = "mean_diff_fill (nat n_x) (traverse mean_diff_step yr zeros)"
  note kw = msdClone_acc_wrapped[OF wf n' fit]
  have kq: "sq_diff (traverse (msdClone_step ?md) yr zeros) (i, j) = 0"
    "sq_diff (traverse (msdClone_step ?md) yr zeros) (j, i) = 0"
    "freq (traverse (msdClone_step ?md) yr zeros) (i, j) = 0"
    "freq (traverse (msdClone_step ?md) yr zeros) (j, i) = 0"
    by (simp_all add: kw z none none' c_long_0)
  have k: "msd_fill (nat n_x) (traverse (msdClone_step ?md) yr zeros) (i, j) = 0"
    using ij by (simp add: msd_fill_cell kq)
  note r = pearson_no_co_rating[OF wf n' fit none] pearson_no_co_rating[OF wf n' fit none']
  have p: "sim (i, j) = Num 0"
    if "\<forall>i j. sim (i, j) =
        (if i = j then (if i < nat n_x then Num 1 else Num 0)
         else if i < j then
           (if j < nat n_x then
              (if np_sqrt (pearson_radicand (traverse pearson_step yr zeros) (i, j)) = Num 0
               then Num 0
               else np_div (pearson_num (traverse pearson_step yr zeros) (i, j))
                      (np_sqrt (pearson_radicand (traverse pearson_step yr zeros) (i, j))))
            else Num 0)
         else (if i < nat n_x then
              (if np_sqrt (pearson_radicand (traverse pearson_step yr zeros) (j, i)) = Num 0
               then Num 0
               else np_div (pearson_num (traverse pearson_step yr zeros) (j, i))
                      (np_sqrt (pearson_radicand (traverse pearson_step yr zeros) (j, i))))
            else Num 0))" for sim
    using ij by (simp add: that r np_sqrt_def)
  show ?thesis
  proof (intro conjI impI)
    show "\<exists>sim. cosine n_x (py_yr yr) = Inr sim \<and> sim (i, j) = Num 0"
      using c by (simp add: cosine_def cw(1))
    show "\<exists>acc sim. msd_acc n_x (py_yr yr) = Inr acc \<and> sq_diff acc (i, j) = 0 \<and>
                    freq acc (i, j) = 0 \<and> msd n_x (py_yr yr) = Inr sim \<and> sim (i, j) = 0"
      using m by (simp add: msd_def mw(1) mq)
    show "\<exists>acc sim. msdClone_acc n_x (py_yr yr) = Inr acc \<and> sq_diff acc (i, j) = 0 \<and>
                    freq acc (i, j) = 0 \<and> msdClone n_x (py_yr yr) = Inr sim \<and> sim (i, j) = 0"
      using k by (simp add: msdClone_def kw(1) kq)
    from pearson_wrapped_cases[OF wf n' fit]
    show "pearson n_x (py_yr yr) = Inl TypeError \<or>
          (\<exists>sim. pearson n_x (py_yr yr) = Inr sim \<and> sim (i, j) = Num 0)"
      using p by blast
    assume rg: "pearson_range n_x R yr"
    from pearson_ok[OF wf rg]
    show "\<exists>sim. pearson n_x (py_yr yr) = Inr sim \<and> sim (i, j) = Num 0"
      using p by blast
  qed
qed

text \<open>
  Claim C6, as amended. A rating counts as the integer that its assignment to a C \<^verbatim>\<open>int\<close>
  gives (a float is truncated). Take a well-formed input with \<open>n_x < 2\<^sup>3\<^sup>1\<close> whose ratings
  fit a C \<^verbatim>\<open>int\<close>, and two different entities \<open>i\<close> and \<open>j\<close> that never occur under the same
  \<open>y\<close>. Then \<^verbatim>\<open>cosine\<close>, \<^verbatim>\<open>msd\<close> and \<^verbatim>\<open>msdClone\<close> return 0 at \<open>(i, j)\<close>: \<^verbatim>\<open>cosine\<close> by its
  guard on \<open>freq\<close>, the two others because \<open>sq_diff = 0\<close> selects the branch that returns
  \<open>freq = 0\<close>. \<^verbatim>\<open>pearson\<close> returns 0 at \<open>(i, j)\<close> whenever it returns a matrix, because its
  denominator is 0 there; it can only fail by the \<^verbatim>\<open>TypeError\<close> of its square root on
  another pair, and it does return in the range of \<open>pearson_range\<close>.
\<close>

theorem no_co_rating_fallback:
  assumes wf: "well_formed n_x (int_ratings yr)" and n: "n_x < 2 ^ 31"
    and fit: "ratings_fit (int_ratings yr)"
    and ij: "i \<noteq> j" "i < nat n_x" "j < nat n_x"
    and none: "co_freq (int_ratings yr) i j = 0"
  shows "(\<exists>sim. cosine n_x yr = Inr sim \<and> sim (i, j) = Num 0) \<and>
         (\<exists>acc sim. msd_acc n_x yr = Inr acc \<and> sq_diff acc (i, j) = 0 \<and>
                    freq acc (i, j) = 0 \<and> msd n_x yr = Inr sim \<and> sim (i, j) = 0) \<and>
         (\<exists>acc sim. msdClone_acc n_x yr = Inr acc \<and> sq_diff acc (i, j) = 0 \<and>
                    freq acc (i, j) = 0 \<and> msdClone n_x yr = Inr sim \<and> sim (i, j) = 0) \<and>
         (pearson n_x yr = Inl TypeError \<or>
          (\<exists>sim. pearson n_x yr = Inr sim \<and> sim (i, j) = Num 0)) \<and>
         (pearson_range n_x R (int_ratings yr) \<longrightarrow>
          (\<exists>sim. pearson n_x yr = Inr sim \<and> sim (i, j) = Num 0))"
  using assms
  by (rule no_co_rating_fallback_int[where yr = "int_ratings yr", unfolded float_ratings_truncated])

theorem no_co_rating_fallback_witness:
  "well_formed 4 example_yr \<and> (4::int) < 2 ^ 31 \<and> ratings_fit example_yr \<and>
   (3::nat) \<noteq> 0 \<and> 3 < nat 4 \<and> 0 < nat 4 \<and> co_freq example_yr 3 0 = 0 \<and>
   pearson_range 4 5 example_yr \<and>
   (\<exists>sim. cosine 4 (py_yr example_yr) = Inr sim \<and> sim (3, 0) = Num 0) \<and>
   (\<exists>sim. msd 4 (py_yr example_yr) = Inr sim \<and> sim (3, 0) = 0) \<and>
   (\<exists>sim. msdClone 4 (py_yr example_yr) = Inr sim \<and> sim (3, 0) = 0) \<and>
   (\<exists>sim. pearson 4 (py_yr example_yr) = Inr sim \<and> sim (3, 0) = Num 0)"
proof -
  have f: "co_freq example_yr 3 0 = 0"
    by (simp add: co_freq_def example4_facts)
  have b: "(4::int) < 2 ^ 31" "(3::nat) \<noteq> 0" "3 < nat 4" "0 < nat 4" by simp_all
  note t = no_co_rating_fallback[where yr = "py_yr example_yr" and R = 5,
             unfolded int_ratings_py, OF example4_facts(1) b(1) example4_facts(3) b(2,3,4) f]
  from t have "\<exists>sim. cosine 4 (py_yr example_yr) = Inr sim \<and> sim (3, 0) = Num 0"
    by (rule conjunct1)
  moreover from t have "\<exists>sim. msd 4 (py_yr example_yr) = Inr sim \<and> sim (3, 0) = 0"
    by blast
  moreover from t have "\<exists>sim. msdClone 4 (py_yr example_yr) = Inr sim \<and> sim (3, 0) = 0"
    by blast
  moreover from t example4_facts(2)
  have "\<exists>sim. pearson 4 (py_yr example_yr) = Inr sim \<and> sim (3, 0) = Num 0"
    by blast
  ultimately show ?thesis using example4_facts(1,2,3) b f by (intro conjI)
qed


lemma overflow_facts:
  "well_formed 2 overflow_yr" "co_freq overflow_yr 0 (Suc 0) = 0"
  by (simp_all add: well_formed_def overflow_yr_def co_freq_def co_rated_def)

lemma overflow_raises:
  "accumulate 2 upd (py_yr overflow_yr) s = Inl OverflowError"
  by (simp add: accumulate_def py_yr_def overflow_yr_def int_as_c_int_def fits_int_def)

lemma overflow_functions:
  "cosine 2 (py_yr overflow_yr) = Inl OverflowError"
  "msd 2 (py_yr overflow_yr) = Inl OverflowError"
  "msdClone 2 (py_yr overflow_yr) = Inl OverflowError"
  "pearson 2 (py_yr overflow_yr) = Inl OverflowError"
  by (simp_all add: overflow_raises cosine_def cosine_acc_def msd_def msd_acc_def
        msdClone_def msdClone_acc_def compute_mean_diff_def mean_diff_acc_def
        pearson_def pearson_acc_def)

lemma sqrt_facts:
  "well_formed 3 sqrt_yr" "ratings_fit sqrt_yr"
  "co_rated sqrt_yr 0 (Suc 0) = [(65536, 0), (0, 65536)]" "co_freq sqrt_yr 0 2 = 0"
  by (simp_all add: well_formed_def ratings_fit_def fits_int_def sqrt_yr_def co_rated_def
        co_freq_def)

lemma pearson_sqrt_raises: "pearson 3 (py_yr sqrt_yr) = Inl TypeError"
proof -
  have n: "(3::int) \<le> 2 ^ 31" by simp
  note w = pearson_acc_wrapped[OF sqrt_facts(1) n sqrt_facts(2)]
  let ?acc = "traverse pearson_step sqrt_yr zeros"
  have v: "freq ?acc (0, Suc 0) = 2" "sqi ?acc (0, Suc 0) = 4294967296"
    "sqj ?acc (0, Suc 0) = 4294967296" "si ?acc (0, Suc 0) = 65536" "sj ?acc (0, Suc 0) = 65536"
    using w(2)[of 0 "Suc 0"] w(4)[of 0 "Suc 0"] w(5)[of 0 "Suc 0"] w(6)[of 0 "Suc 0"]
      w(7)[of 0 "Suc 0"]
    by (simp_all add: co_sum_def co_freq_def sqrt_facts c_long_def)
  have r: "pearson_radicand ?acc (0, Suc 0) = 2 ^ 64"
    by (simp add: pearson_radicand_def v c_long_def)
  have "pearson_fill 3 ?acc = Inl TypeError"
    by (rule pearson_fill_raises[of 0 "Suc 0"]) (simp_all add: r)
  then show ?thesis by (simp add: pearson_def w(1))
qed

text \<open>
  Claim C6 as stated fails. With one rating \<open>2147483648\<close> the input is well formed and the
  entities 0 and 1 never occur under the same \<open>y\<close>, but the rating fits no C \<^verbatim>\<open>int\<close> and
  all four functions raise \<^verbatim>\<open>OverflowError\<close>. And with the ratings \<open>65536\<close> and 0 under two
  \<open>y\<close>s every rating fits and the entities 0 and 2 never occur under the same \<open>y\<close>, but the
  number under the root is \<open>2\<^sup>6\<^sup>4\<close> for the entities 0 and 1 and \<^verbatim>\<open>pearson\<close> raises.
\<close>

theorem no_co_rating_counterexample:
  "well_formed 2 overflow_yr \<and> (0::nat) \<noteq> 1 \<and> co_freq overflow_yr 0 1 = 0 \<and>
   cosine 2 (py_yr overflow_yr) = Inl OverflowError \<and>
   msd 2 (py_yr overflow_yr) = Inl OverflowError \<and>
   msdClone 2 (py_yr overflow_yr) = Inl OverflowError \<and>
   pearson 2 (py_yr overflow_yr) = Inl OverflowError \<and>
   well_formed 3 sqrt_yr \<and> ratings_fit sqrt_yr \<and> (0::nat) \<noteq> 2 \<and> co_freq sqrt_yr 0 2 = 0 \<and>
   pearson 3 (py_yr sqrt_yr) = Inl TypeError"
  by (simp add: overflow_facts sqrt_facts pearson_sqrt_raises overflow_functions)

lemma cosine_fill_sym: "cosine_fill n a (i, j) = cosine_fill n a (j, i)"
  by (auto simp: cosine_fill_cell)

lemma msd_fill_sym: "msd_fill n a (i, j) = msd_fill n a (j, i)"
  by (auto simp: msd_fill_cell)

lemma np_div_number: "d \<noteq> 0 \<Longrightarrow> np_div k (Num d) \<noteq> NaN"
  by simp

lemma cosine_no_nan:
  assumes wf: "well_formed n_x yr" and rg: "cosine_range n_x R yr" and nz: "ratings_nonzero yr"
  shows "cosine_fill (nat n_x) (traverse cosine_step yr zeros) (i, j) \<noteq> NaN"
proof -
  let ?acc = "traverse cosine_step yr zeros"
  note ok = cosine_acc_ok[OF wf rg]
  have cell: "(if freq ?acc (i, j) = 0 then Num 0
               else np_div (prods ?acc (i, j))
                      (np_sqrt (c_long (sqi ?acc (i, j) * sqj ?acc (i, j))))) \<noteq> NaN" for i j
  proof (cases "freq ?acc (i, j) = 0")
    case True
    then show ?thesis by simp
  next
    case False
    with co_freq_nonneg[of yr i j] have fr: "0 < co_freq yr i j" by (simp add: ok)
    define x where "x = sqi ?acc (i, j) * sqj ?acc (i, j)"
    from co_sum_squares_pos[OF nz fr] have pos: "0 < x" by (simp add: x_def ok)
    have cl: "c_long x = x"
      unfolding x_def by (simp only: ok(4,5) cosine_range_product[OF rg])
    have "np_div (prods ?acc (i, j)) (np_sqrt (c_long x)) \<noteq> NaN"
      using pos by (simp add: cl np_sqrt_def)
    with False show ?thesis by (simp add: x_def)
  qed
  show ?thesis
    using cell[of i j] cell[of j i] by (simp add: cosine_fill_cell Let_def)
qed

lemma pearson_no_nan:
  assumes "0 \<le> r"
  shows "(if np_sqrt r = Num 0 then Num 0 else np_div k (np_sqrt r)) \<noteq> NaN"
  using assms by (simp add: np_sqrt_def)

lemma similarity_symmetric_int:
  assumes wf: "well_formed n_x yr" and n: "n_x < 2 ^ 31" and fit: "ratings_fit yr"
    and ij: "i < nat n_x" "j < nat n_x"
  shows "(\<exists>sim. cosine n_x (py_yr yr) = Inr sim \<and> sim (i, j) = sim (j, i) \<and>
                (ieee_eq (sim (i, j)) (sim (j, i)) \<longleftrightarrow> sim (i, j) \<noteq> NaN)) \<and>
         (\<exists>sim. msd n_x (py_yr yr) = Inr sim \<and> sim (i, j) = sim (j, i)) \<and>
         (\<exists>sim. msdClone n_x (py_yr yr) = Inr sim \<and> sim (i, j) = sim (j, i)) \<and>
         (pearson n_x (py_yr yr) = Inl TypeError \<or>
          (\<exists>sim. pearson n_x (py_yr yr) = Inr sim \<and> sim (i, j) = sim (j, i) \<and>
                 (ieee_eq (sim (i, j)) (sim (j, i)) \<longleftrightarrow> sim (i, j) \<noteq> NaN))) \<and>
         (cosine_range n_x R yr \<and> ratings_nonzero yr \<longrightarrow>
          (\<exists>sim. cosine n_x (py_yr yr) = Inr sim \<and> ieee_eq (sim (i, j)) (sim (j, i)))) \<and>
         (pearson_range n_x R yr \<longrightarrow>
          (\<exists>sim. pearson n_x (py_yr yr) = Inr sim \<and> ieee_eq (sim (i, j)) (sim (j, i))))"
proof -
  from n have n': "n_x \<le> 2 ^ 31" by simp
  let ?pacc = "traverse pearson_step yr zeros"
  have psym: "sim (i, j) = sim (j, i)"
    if "\<forall>i j. sim (i, j) =
        (if i = j then (if i < nat n_x then Num 1 else Num 0)
         else if i < j then
           (if j < nat n_x then
              (if np_sqrt (pearson_radicand ?pacc (i, j)) = Num 0 then Num 0
               else np_div (pearson_num ?pacc (i, j)) (np_sqrt (pearson_radicand ?pacc (i, j))))
            else Num 0)
         else (if i < nat n_x then
              (if np_sqrt (pearson_radicand ?pacc (j, i)) = Num 0 then Num 0
               else np_div (pearson_num ?pacc (j, i)) (np_sqrt (pearson_radicand ?pacc (j, i))))
            else Num 0))" for sim
    using ij by (auto simp: that)
  show ?thesis
  proof (intro conjI impI)
    show "\<exists>sim. cosine n_x (py_yr yr) = Inr sim \<and> sim (i, j) = sim (j, i) \<and>
                (ieee_eq (sim (i, j)) (sim (j, i)) \<longleftrightarrow> sim (i, j) \<noteq> NaN)"
      using cosine_fill_sym[of "nat n_x" "traverse cosine_step yr zeros" i j]
      by (simp add: cosine_def cosine_acc_wrapped(1)[OF wf n' fit] ieee_eq_same)
    show "\<exists>sim. msd n_x (py_yr yr) = Inr sim \<and> sim (i, j) = sim (j, i)"
      by (simp add: msd_def msd_acc_wrapped(1)[OF wf n' fit]) (rule msd_fill_sym)
    show "\<exists>sim. msdClone n_x (py_yr yr) = Inr sim \<and> sim (i, j) = sim (j, i)"
      by (simp add: msdClone_def msdClone_acc_wrapped(1)[OF wf n' fit]) (rule msd_fill_sym)
    from pearson_wrapped_cases[OF wf n' fit]
    show "pearson n_x (py_yr yr) = Inl TypeError \<or>
          (\<exists>sim. pearson n_x (py_yr yr) = Inr sim \<and> sim (i, j) = sim (j, i) \<and>
                 (ieee_eq (sim (i, j)) (sim (j, i)) \<longleftrightarrow> sim (i, j) \<noteq> NaN))"
    proof
      assume "pearson n_x (py_yr yr) = Inl TypeError"
      then show ?thesis by (rule disjI1)
    next
      assume "\<exists>sim. pearson n_x (py_yr yr) = Inr sim \<and>
        (\<forall>i j. sim (i, j) =
        (if i = j then (if i < nat n_x then Num 1 else Num 0)
         else if i < j then
           (if j < nat n_x then
              (if np_sqrt (pearson_radicand ?pacc (i, j)) = Num 0 then Num 0
               else np_div (pearson_num ?pacc (i, j)) (np_sqrt (pearson_radicand ?pacc (i, j))))
            else Num 0)
         else (if i < nat n_x then
              (if np_sqrt (pearson_radicand ?pacc (j, i)) = Num 0 then Num 0
               else np_div (pearson_num ?pacc (j, i)) (np_sqrt (pearson_radicand ?pacc (j, i))))
            else Num 0)))"
      then obtain sim where s: "pearson n_x (py_yr yr) = Inr sim"
        and c: "\<forall>i j. sim (i, j) =
        (if i = j then (if i < nat n_x then Num 1 else Num 0)
         else if i < j then
           (if j < nat n_x then
              (if np_sqrt (pearson_radicand ?pacc (i, j)) = Num 0 then Num 0
               else np_div (pearson_num ?pacc (i, j)) (np_sqrt (pearson_radicand ?pacc (i, j))))
            else Num 0)
         else (if i < nat n_x then
              (if np_sqrt (pearson_radicand ?pacc (j, i)) = Num 0 then Num 0
               else np_div (pearson_num ?pacc (j, i)) (np_sqrt (pearson_radicand ?pacc (j, i))))
            else Num 0))"
        by blast
      from psym[OF c] have "sim (i, j) = sim (j, i) \<and>
                 (ieee_eq (sim (i, j)) (sim (j, i)) \<longleftrightarrow> sim (i, j) \<noteq> NaN)"
        by (simp add: ieee_eq_same)
      with s show ?thesis by blast
    qed
  next
    assume h: "cosine_range n_x R yr \<and> ratings_nonzero yr"
    then have rg: "cosine_range n_x R yr" and nz: "ratings_nonzero yr" by simp_all
    let ?sim = "cosine_fill (nat n_x) (traverse cosine_step yr zeros)"
    have "?sim (i, j) = ?sim (j, i)" by (rule cosine_fill_sym)
    with cosine_no_nan[OF wf rg nz, of i j] have "ieee_eq (?sim (i, j)) (?sim (j, i))"
      by (simp add: ieee_eq_same)
    then show "\<exists>sim. cosine n_x (py_yr yr) = Inr sim \<and> ieee_eq (sim (i, j)) (sim (j, i))"
      by (simp add: cosine_def cosine_acc_ok(1)[OF wf rg])
  next
    assume rg: "pearson_range n_x R yr"
    from pearson_ok[OF wf rg] obtain sim where s: "pearson n_x (py_yr yr) = Inr sim"
      and c: "\<forall>i j. sim (i, j) =
        (if i = j then (if i < nat n_x then Num 1 else Num 0)
         else if i < j then
           (if j < nat n_x then
              (if np_sqrt (pearson_radicand ?pacc (i, j)) = Num 0 then Num 0
               else np_div (pearson_num ?pacc (i, j)) (np_sqrt (pearson_radicand ?pacc (i, j))))
            else Num 0)
         else (if i < nat n_x then
              (if np_sqrt (pearson_radicand ?pacc (j, i)) = Num 0 then Num 0
               else np_div (pearson_num ?pacc (j, i)) (np_sqrt (pearson_radicand ?pacc (j, i))))
            else Num 0))"
      by blast
    note nn = pearson_no_nan[OF pearson_terms_ok(3)[OF wf rg]]
    have "sim (i, j) \<noteq> NaN"
      using ij nn[of i j] nn[of j i] by (simp add: c[rule_format, of i j])
    with psym[OF c] have "ieee_eq (sim (i, j)) (sim (j, i))"
      by (simp add: ieee_eq_same)
    with s show "\<exists>sim. pearson n_x (py_yr yr) = Inr sim \<and> ieee_eq (sim (i, j)) (sim (j, i))"
      by blast
  qed
qed

text \<open>
  Claim C7, as amended. A rating counts as the integer that its assignment to a C \<^verbatim>\<open>int\<close>
  gives (a float is truncated). Take a well-formed input with \<open>n_x < 2\<^sup>3\<^sup>1\<close> whose ratings
  fit a C \<^verbatim>\<open>int\<close>, and two valid indices \<open>i\<close>, \<open>j\<close>. \<^verbatim>\<open>msd\<close> and \<^verbatim>\<open>msdClone\<close> return a matrix
  with \<open>sim[i,j] == sim[j,i]\<close>. \<^verbatim>\<open>cosine\<close> returns a matrix whose cells \<open>(i, j)\<close> and
  \<open>(j, i)\<close> hold the same value, and so does \<^verbatim>\<open>pearson\<close> unless its square root raises; the
  comparison \<open>sim[i,j] == sim[j,i]\<close> is true exactly when that value is not a
  not-a-number. It is true for \<^verbatim>\<open>cosine\<close> in the range of \<open>cosine_range\<close> when no rating is
  0, and for \<^verbatim>\<open>pearson\<close>, which then returns, in the range of \<open>pearson_range\<close>.
\<close>

theorem similarity_symmetric:
  assumes wf: "well_formed n_x (int_ratings yr)" and n: "n_x < 2 ^ 31"
    and fit: "ratings_fit (int_ratings yr)"
    and ij: "i < nat n_x" "j < nat n_x"
  shows "(\<exists>sim. cosine n_x yr = Inr sim \<and> sim (i, j) = sim (j, i) \<and>
                (ieee_eq (sim (i, j)) (sim (j, i)) \<longleftrightarrow> sim (i, j) \<noteq> NaN)) \<and>
         (\<exists>sim. msd n_x yr = Inr sim \<and> sim (i, j) = sim (j, i)) \<and>
         (\<exists>sim. msdClone n_x yr = Inr sim \<and> sim (i, j) = sim (j, i)) \<and>
         (pearson n_x yr = Inl TypeError \<or>
          (\<exists>sim. pearson n_x yr = Inr sim \<and> sim (i, j) = sim (j, i) \<and>
                 (ieee_eq (sim (i, j)) (sim (j, i)) \<longleftrightarrow> sim (i, j) \<noteq> NaN))) \<and>
         (cosine_range n_x R (int_ratings yr) \<and> ratings_nonzero (int_ratings yr) \<longrightarrow>
          (\<exists>sim. cosine n_x yr = Inr sim \<and> ieee_eq (sim (i, j)) (sim (j, i)))) \<and>
         (pearson_range n_x R (int_ratings yr) \<longrightarrow>
          (\<exists>sim. pearson n_x yr = Inr sim \<and> ieee_eq (sim (i, j)) (sim (j, i))))"
  using assms
  by (rule similarity_symmetric_int[where yr = "int_ratings yr", unfolded float_ratings_truncated])

theorem similarity_symmetric_witness:
  "well_formed 3 example_yr \<and> (3::int) < 2 ^ 31 \<and> ratings_fit example_yr \<and>
   0 < nat 3 \<and> 2 < nat 3 \<and> cosine_range 3 5 example_yr \<and> ratings_nonzero example_yr \<and>
   pearson_range 3 5 example_yr \<and>
   (\<exists>sim. cosine 3 (py_yr example_yr) = Inr sim \<and> ieee_eq (sim (0, 2)) (sim (2, 0))) \<and>
   (\<exists>sim. msd 3 (py_yr example_yr) = Inr sim \<and> sim (0, 2) = sim (2, 0)) \<and>
   (\<exists>sim. msdClone 3 (py_yr example_yr) = Inr sim \<and> sim (0, 2) = sim (2, 0)) \<and>
   (\<exists>sim. pearson 3 (py_yr example_yr) = Inr sim \<and> ieee_eq (sim (0, 2)) (sim (2, 0)))"
proof -
  have b: "(3::int) < 2 ^ 31" "0 < nat 3" "2 < nat 3" by simp_all
  note t = similarity_symmetric[where yr = "py_yr example_yr" and R = 5,
             unfolded int_ratings_py, OF example_facts(1) b(1) example4_facts(3) b(2,3)]
  from t example_facts(3) ratings_nonzero_example
  have "\<exists>sim. cosine 3 (py_yr example_yr) = Inr sim \<and> ieee_eq (sim (0, 2)) (sim (2, 0))"
    by blast
  moreover from t have "\<exists>sim. msd 3 (py_yr example_yr) = Inr sim \<and> sim (0, 2) = sim (2, 0)"
    by blast
  moreover from t
  have "\<exists>sim. msdClone 3 (py_yr example_yr) = Inr sim \<and> sim (0, 2) = sim (2, 0)"
    by blast
  moreover from t example_facts(4)
  have "\<exists>sim. pearson 3 (py_yr example_yr) = Inr sim \<and> ieee_eq (sim (0, 2)) (sim (2, 0))"
    by blast
  ultimately show ?thesis
    using example_facts(1,3,4) example4_facts(3) ratings_nonzero_example b by (intro conjI)
qed

text \<open>
  Claim C7 as stated fails: with the rating 0 twice under one \<open>y\<close> the input is well
  formed, \<^verbatim>\<open>cosine\<close> divides 0 by 0 and stores a not-a-number in both cells, and the
  comparison \<open>sim[0,1] == sim[1,0]\<close> is false.
\<close>

theorem symmetry_counterexample:
  "well_formed 2 zero_yr \<and> cosine_range 2 1 zero_yr \<and>
   (\<exists>sim. cosine 2 (py_yr zero_yr) = Inr sim \<and> sim (0, 1) = NaN \<and> sim (1, 0) = NaN \<and>
          \<not> ieee_eq (sim (0, 1)) (sim (1, 0)))"
  by (simp add: zero_facts cosine_zero ieee_eq_def)

end
